theory Spec2Isabelle
  imports Complex_Main "HOL-Library.Word"
begin

section \<open>The bridge of virtualization.go: data model\<close>

text \<open>
  The development follows \<^verbatim>\<open>src/virtualization.go\<close>. Go pointers to
  \<^verbatim>\<open>VirtualMachine\<close> objects are addresses into a store; the records a virtual machine
  points to (\<^verbatim>\<open>machineState\<close>, the two infinity channels) are allocated once in
  \<^verbatim>\<open>NewVirtualMachine\<close> and their pointers are never reassigned, so they are kept inside
  the \<^verbatim>\<open>VirtualMachine\<close> record and a handle that registers one of them names it through the
  address of the owning machine. The mutexes are not modelled: every function below is one
  atomic transition, which is what the critical sections of the source give.
\<close>

type_synonym uintptr = "64 word"
type_synonym addr = nat
type_synonym float64 = real

text \<open>
  Go's \<^verbatim>\<open>error\<close> interface; the nil error is \<open>None\<close> of \<open>error option\<close>.
  \<open>NilNSError\<close> is the interface value that is not nil but holds a nil
  \<^verbatim>\<open>*NSError\<close>: what Go makes of a nil pointer stored in an \<^verbatim>\<open>error\<close>-typed place.
\<close>

datatype error =
    ErrUnsupportedOSVersion
  | Errorf string
  | NSError nat
  | NilNSError
  | OptionError nat

text \<open>Run-time panics of Go; a panic ends the execution.\<close>

datatype panic =
    InvalidHandle
  | HandleSpaceExhausted
  | NilDereference
  | BadTypeAssertion
  | SendOnClosedChannel
  | CloseOfClosedChannel

text \<open>
  \<^verbatim>\<open>type VirtualMachineState int\<close> with its \<^verbatim>\<open>iota\<close> constants. The observer
  converts any \<^verbatim>\<open>C.int\<close> to it, so the type is \<open>int\<close>, not an enumeration.
\<close>

type_synonym VirtualMachineState = int

definition VirtualMachineStateStopped :: VirtualMachineState where
  "VirtualMachineStateStopped = 0"
definition VirtualMachineStateRunning :: VirtualMachineState where
  "VirtualMachineStateRunning = 1"
definition VirtualMachineStatePaused :: VirtualMachineState where
  "VirtualMachineStatePaused = 2"
definition VirtualMachineStateError :: VirtualMachineState where
  "VirtualMachineStateError = 3"
definition VirtualMachineStateStarting :: VirtualMachineState where
  "VirtualMachineStateStarting = 4"
definition VirtualMachineStatePausing :: VirtualMachineState where
  "VirtualMachineStatePausing = 5"
definition VirtualMachineStateResuming :: VirtualMachineState where
  "VirtualMachineStateResuming = 6"
definition VirtualMachineStateStopping :: VirtualMachineState where
  "VirtualMachineStateStopping = 7"
definition VirtualMachineStateSaving :: VirtualMachineState where
  "VirtualMachineStateSaving = 8"
definition VirtualMachineStateRestoring :: VirtualMachineState where
  "VirtualMachineStateRestoring = 9"

subsection \<open>Channels\<close>

text \<open>
  \<^verbatim>\<open>infinity.Channel[T]\<close> (the imported go-infinity-channel): an unbounded FIFO with one
  input side and one output side. \<^verbatim>\<open>In() <- x\<close> never blocks and panics after
  \<^verbatim>\<open>Close()\<close>; \<^verbatim>\<open>Out()\<close> is the one Go channel all receivers share, so a value is
  handed to exactly one receiver; after \<^verbatim>\<open>Close()\<close> the output side drains what is queued
  and is then closed. A second \<^verbatim>\<open>Close()\<close> panics, as closing a closed Go channel does.
\<close>

record 'a infchan =
  queue :: "'a list"
  inClosed :: bool

definition NewChannel :: "'a infchan" where
  "NewChannel = \<lparr>queue = [], inClosed = False\<rparr>"

definition chan_send :: "'a \<Rightarrow> 'a infchan \<Rightarrow> panic + 'a infchan" where
  "chan_send x c =
     (if inClosed c then Inl SendOnClosedChannel else Inr (c\<lparr>queue := queue c @ [x]\<rparr>))"

definition chan_close :: "'a infchan \<Rightarrow> panic + 'a infchan" where
  "chan_close c =
     (if inClosed c then Inl CloseOfClosedChannel else Inr (c\<lparr>inClosed := True\<rparr>))"

text \<open>
  One receive on the output side: a value and the rest, or \<open>RecvClosed\<close> when the channel
  is closed and drained (the end of a \<^verbatim>\<open>range\<close> loop), or \<open>RecvBlocked\<close> when the
  receiver would wait.
\<close>

datatype 'a recv = Recv 'a | RecvClosed | RecvBlocked

definition chan_recv :: "'a infchan \<Rightarrow> 'a recv \<times> 'a infchan" where
  "chan_recv c =
     (case queue c of
        x # xs \<Rightarrow> (Recv x, c\<lparr>queue := xs\<rparr>)
      | [] \<Rightarrow> (if inClosed c then RecvClosed else RecvBlocked, c))"

subsection \<open>The virtual machine and the world around it\<close>

record disconnected =
  err :: "error option"
  index :: int

text \<open>
  \<^verbatim>\<open>DisconnectedError\<close>; \<open>Config\<close> is a pointer to the device configuration, nil being
  \<open>None\<close>. A device configuration is identified by a number.
\<close>

type_synonym VirtioNetworkDeviceConfiguration = nat

record DisconnectedError =
  Err :: "error option"
  Config :: "VirtioNetworkDeviceConfiguration option"

record VirtualMachineConfiguration =
  networkDeviceConfiguration :: "VirtioNetworkDeviceConfiguration list"

record machineState =
  state :: VirtualMachineState
  stateNotify :: "VirtualMachineState infchan"

record VirtualMachine =
  vm_id :: string
  pointer :: nat
  dispatchQueue :: nat
  machineState :: machineState
  disconnectedIn :: "disconnected infchan"
  disconnectedOut :: "DisconnectedError infchan"
  watchDisconnectedOnce :: bool
  finalizeOnce :: bool
  config :: VirtualMachineConfiguration
  hasGUIWindow :: bool
  windowClosedHandle :: uintptr

text \<open>What a \<^verbatim>\<open>cgo.Handle\<close> can hold in this package.\<close>

datatype hvalue =
    HMachineState addr
  | HDisconnectedIn addr
  | HVirtualMachine addr
  | HHandler addr

text \<open>The foreign calls that act on the native side, in the order they are issued.\<close>

datatype foreign_call =
    C_startVirtualMachineWindow nat nat float64 float64 string bool uintptr bool
  | C_bringVirtualMachineWindowToFront
  | C_showVirtualMachineWindow
  | C_ReleaseDispatch nat
  | C_Release nat
  | C_startWithCompletionHandler nat nat uintptr
  | C_startWithOptionsCompletionHandler nat nat nat uintptr
  | C_pauseWithCompletionHandler nat nat uintptr
  | C_resumeWithCompletionHandler nat nat uintptr
  | C_stopWithCompletionHandler nat nat uintptr

text \<open>A goroutine started by \<^verbatim>\<open>go v.watchDisconnected()\<close>, for the machine at an address.\<close>

datatype gstatus = Running | Finished

text \<open>
  A control call blocked in \<^verbatim>\<open>return <-errCh\<close>, with its deferred
  \<^verbatim>\<open>handle.Delete()\<close>: the handle it registered and the channel it waits on.
\<close>

record pending =
  p_handle :: uintptr
  p_errCh :: addr

text \<open>
  A Go channel \<^verbatim>\<open>make(chan error, 1)\<close>: a buffer of capacity one and a closed flag.
\<close>

record errchan =
  buf :: "error option list"
  chClosed :: bool

record world =
  macOSVersion :: nat
  hasVirtualMachineWindow :: bool
  handleIdx :: uintptr
  handles :: "uintptr \<rightharpoonup> hvalue"
  heapNext :: addr
  vms :: "addr \<rightharpoonup> VirtualMachine"
  errChans :: "addr \<rightharpoonup> errchan"
  watchers :: "(addr \<times> gstatus) list"
  foreignCalls :: "foreign_call list"

subsection \<open>runtime/cgo handles\<close>

text \<open>
  \<^verbatim>\<open>cgo.NewHandle\<close> increments an atomic \<^verbatim>\<open>uintptr\<close> counter and panics when it wraps to
  zero; \<^verbatim>\<open>Value\<close> and \<^verbatim>\<open>Delete\<close> panic on a handle that is not in the table.
\<close>

definition NewHandle :: "hvalue \<Rightarrow> world \<Rightarrow> panic + (uintptr \<times> world)" where
  "NewHandle v w =
     (let h = handleIdx w + 1 in
      if h = 0 then Inl HandleSpaceExhausted
      else Inr (h, w\<lparr>handleIdx := h, handles := (handles w)(h \<mapsto> v)\<rparr>))"

definition Handle_Value :: "uintptr \<Rightarrow> world \<Rightarrow> panic + hvalue" where
  "Handle_Value h w = (case handles w h of None \<Rightarrow> Inl InvalidHandle | Some v \<Rightarrow> Inr v)"

definition Handle_Delete :: "uintptr \<Rightarrow> world \<Rightarrow> panic + world" where
  "Handle_Delete h w =
     (case handles w h of
        None \<Rightarrow> Inl InvalidHandle
      | Some v \<Rightarrow> Inr (w\<lparr>handles := (handles w)(h := None)\<rparr>))"

text \<open>
  Modelled from the spec: \<^verbatim>\<open>macOSAvailable\<close> (not among the sources) is the platform-version
  gate, "feature gated by platform-version checks, detected before any foreign call"; it
  fails with the unsupported-version error below the requested major version.
\<close>

definition macOSAvailable :: "nat \<Rightarrow> world \<Rightarrow> error option" where
  "macOSAvailable version w =
     (if macOSVersion w < version then Some ErrUnsupportedOSVersion else None)"

text \<open>
  Modelled from the spec: \<^verbatim>\<open>newNSError\<close> (not among the sources) "converts a foreign error
  representation into a typed error (or none)"; the foreign pointer is \<open>None\<close> when null.
  Its result is a \<^verbatim>\<open>*NSError\<close>, as the nil checks of its callers show: \<open>None\<close> is the
  nil pointer. \<open>as_error\<close> is the implicit conversion when such a pointer is stored in an
  \<^verbatim>\<open>error\<close>-typed field without a nil check: the interface is never nil.
\<close>

definition newNSError :: "nat option \<Rightarrow> error option" where
  "newNSError errPtr = map_option NSError errPtr"

definition as_error :: "error option \<Rightarrow> error option" where
  "as_error ptr = Some (case ptr of None \<Rightarrow> NilNSError | Some e \<Rightarrow> e)"

subsection \<open>NewVirtualMachine\<close>

text \<open>
  The results of the foreign calls of the constructor (the UUID, the dispatch queue and the
  native machine) are parameters. The finalizer is the garbage collector's business and is
  modelled by \<open>finalize\<close> being callable at any time.
\<close>

definition NewVirtualMachine ::
  "VirtualMachineConfiguration \<Rightarrow> string \<Rightarrow> nat \<Rightarrow> nat \<Rightarrow> world
     \<Rightarrow> panic + ((addr option \<times> error option) \<times> world)" where
  "NewVirtualMachine cfg uuid dq native w =
     (case macOSAvailable 11 w of
        Some e \<Rightarrow> Inr ((None, Some e), w)
      | None \<Rightarrow>
         (let v = heapNext w in
          case NewHandle (HMachineState v) w of
            Inl p \<Rightarrow> Inl p
          | Inr (stateHandle, w1) \<Rightarrow>
             (case NewHandle (HDisconnectedIn v) w1 of
                Inl p \<Rightarrow> Inl p
              | Inr (disconnectedHandle, w2) \<Rightarrow>
                 Inr ((Some v, None),
                      w2\<lparr>heapNext := Suc v,
                         vms := (vms w2)(v \<mapsto>
                           \<lparr>vm_id = uuid, pointer = native, dispatchQueue = dq,
                            machineState = \<lparr>state = 0, stateNotify = NewChannel\<rparr>,
                            disconnectedIn = NewChannel, disconnectedOut = NewChannel,
                            watchDisconnectedOnce = False, finalizeOnce = False,
                            config = cfg, hasGUIWindow = False,
                            windowClosedHandle = 0\<rparr>)\<rparr>))))"

text \<open>The world before anything is created, on a given platform.\<close>

definition world0 :: "nat \<Rightarrow> world" where
  "world0 ver =
     \<lparr>macOSVersion = ver, hasVirtualMachineWindow = False, handleIdx = 0,
      handles = Map.empty, heapNext = 0, vms = Map.empty, errChans = Map.empty,
      watchers = [], foreignCalls = []\<rparr>"

section \<open>Window lifecycle\<close>

record startGraphicApplicationOptions =
  title :: string
  enableController :: bool
  confirmStopOnClose :: bool

text \<open>
  An option mutates the options and returns an error or nil; on an error the caller returns
  at once, so the mutated options are only needed on success.
\<close>

type_synonym StartGraphicApplicationOption =
  "startGraphicApplicationOptions \<Rightarrow> error + startGraphicApplicationOptions"

definition WithWindowTitle :: "string \<Rightarrow> StartGraphicApplicationOption" where
  "WithWindowTitle t = (\<lambda>sgao. Inr (sgao\<lparr>title := t\<rparr>))"

definition WithController :: "bool \<Rightarrow> StartGraphicApplicationOption" where
  "WithController enable = (\<lambda>sgao. Inr (sgao\<lparr>enableController := enable\<rparr>))"

definition WithConfirmStopOnClose :: "bool \<Rightarrow> StartGraphicApplicationOption" where
  "WithConfirmStopOnClose enable = (\<lambda>sgao. Inr (sgao\<lparr>confirmStopOnClose := enable\<rparr>))"

fun apply_opts ::
  "StartGraphicApplicationOption list \<Rightarrow> startGraphicApplicationOptions
     \<Rightarrow> error + startGraphicApplicationOptions" where
  "apply_opts [] o1 = Inr o1"
| "apply_opts (opt # opts) o1 =
     (case opt o1 of Inl e \<Rightarrow> Inl e | Inr o2 \<Rightarrow> apply_opts opts o2)"

definition StartGraphicApplication ::
  "addr \<Rightarrow> float64 \<Rightarrow> float64 \<Rightarrow> StartGraphicApplicationOption list \<Rightarrow> world
     \<Rightarrow> panic + (error option \<times> world)" where
  "StartGraphicApplication v width height opts w =
     (case macOSAvailable 12 w of
        Some e \<Rightarrow> Inr (Some e, w)
      | None \<Rightarrow>
         (case apply_opts opts \<lparr>title = [], enableController = False,
                                confirmStopOnClose = True\<rparr> of
            Inl e \<Rightarrow> Inr (Some e, w)
          | Inr defaultOpts \<Rightarrow>
             (case vms w v of
                None \<Rightarrow> Inl NilDereference
              | Some vm \<Rightarrow>
                 (case NewHandle (HVirtualMachine v) w of
                    Inl p \<Rightarrow> Inl p
                  | Inr (h, w1) \<Rightarrow>
                     Inr (None,
                          w1\<lparr>vms := (vms w1)(v \<mapsto>
                                vm\<lparr>hasGUIWindow := True, windowClosedHandle := h\<rparr>),
                             foreignCalls := foreignCalls w1 @
                               [C_startVirtualMachineWindow (pointer vm) (dispatchQueue vm)
                                  width height (title defaultOpts)
                                  (enableController defaultOpts) h
                                  (confirmStopOnClose defaultOpts)]\<rparr>)))))"

definition notifyWindowClosed :: "uintptr \<Rightarrow> world \<Rightarrow> panic + world" where
  "notifyWindowClosed cgoHandleUintptr w =
     (if cgoHandleUintptr = 0 then Inr w
      else
        (case Handle_Value cgoHandleUintptr w of
           Inl p \<Rightarrow> Inl p
         | Inr (HVirtualMachine a) \<Rightarrow>
             (case vms w a of
                None \<Rightarrow> Inl NilDereference
              | Some vm \<Rightarrow> Inr (w\<lparr>vms := (vms w)(a \<mapsto> vm\<lparr>hasGUIWindow := False\<rparr>)\<rparr>))
         | Inr _ \<Rightarrow> Inr w))"




definition finalize :: "addr \<Rightarrow> world \<Rightarrow> panic + world" where
  "finalize v w =
     (case vms w v of
        None \<Rightarrow> Inl NilDereference
      | Some vm \<Rightarrow>
         if finalizeOnce vm then Inr w
         else
           (case (if windowClosedHandle vm \<noteq> 0
                  then Handle_Delete (windowClosedHandle vm) w else Inr w) of
              Inl p \<Rightarrow> Inl p
            | Inr w1 \<Rightarrow>
               Inr (w1\<lparr>vms := (vms w1)(v \<mapsto>
                          vm\<lparr>windowClosedHandle := 0, finalizeOnce := True\<rparr>),
                       foreignCalls := foreignCalls w1 @
                         [C_ReleaseDispatch (dispatchQueue vm), C_Release (pointer vm)]\<rparr>)))"


section \<open>State channel\<close>

definition changeStateOnObserver :: "32 word \<Rightarrow> uintptr \<Rightarrow> world \<Rightarrow> panic + world" where
  "changeStateOnObserver newStateRaw cgoHandleUintptr w =
     (case Handle_Value cgoHandleUintptr w of
        Inl p \<Rightarrow> Inl p
      | Inr (HMachineState a) \<Rightarrow>
          (case vms w a of
             None \<Rightarrow> Inl NilDereference
           | Some vm \<Rightarrow>
              (let newState = sint newStateRaw in
               case chan_send newState (stateNotify (machineState vm)) of
                 Inl p \<Rightarrow> Inl p
               | Inr c \<Rightarrow>
                  Inr (w\<lparr>vms := (vms w)(a \<mapsto>
                         vm\<lparr>machineState := \<lparr>state = newState, stateNotify = c\<rparr>\<rparr>)\<rparr>)))
      | Inr _ \<Rightarrow> Inl NilDereference)"

definition State :: "addr \<Rightarrow> world \<Rightarrow> panic + VirtualMachineState" where
  "State v w =
     (case vms w v of None \<Rightarrow> Inl NilDereference | Some vm \<Rightarrow> Inr (state (machineState vm)))"

text \<open>
  The receive-only channel \<^verbatim>\<open>StateChangedNotify\<close> returns is the output side of the
  machine's \<^verbatim>\<open>stateNotify\<close>: a reference to it, by the machine's address.
\<close>

datatype state_stream = StateNotifyOut addr

definition StateChangedNotify :: "addr \<Rightarrow> world \<Rightarrow> panic + state_stream" where
  "StateChangedNotify v w =
     (case vms w v of None \<Rightarrow> Inl NilDereference | Some vm \<Rightarrow> Inr (StateNotifyOut v))"

text \<open>A consumer's receive \<^verbatim>\<open><-ch\<close> on such a stream.\<close>

fun receive_state ::
  "state_stream \<Rightarrow> world \<Rightarrow> panic + (VirtualMachineState recv \<times> world)" where
  "receive_state (StateNotifyOut a) w =
     (case vms w a of
        None \<Rightarrow> Inl NilDereference
      | Some vm \<Rightarrow>
         (case chan_recv (stateNotify (machineState vm)) of
            (r, c) \<Rightarrow>
              Inr (r, w\<lparr>vms := (vms w)(a \<mapsto>
                        vm\<lparr>machineState := (machineState vm)\<lparr>stateNotify := c\<rparr>\<rparr>)\<rparr>)))"

text \<open>Running a list of events from a state; a panic ends the run.\<close>

fun run :: "('e \<Rightarrow> 's \<Rightarrow> panic + 's) \<Rightarrow> 'e list \<Rightarrow> 's \<Rightarrow> panic + 's" where
  "run step [] s = Inr s"
| "run step (e # es) s = (case step e s of Inl p \<Rightarrow> Inl p | Inr s' \<Rightarrow> run step es s')"

text \<open>
  What happens around the state channel: the foreign observer fires with a raw state and
  a handle, or the subscriber with a given number receives on the stream it holds. The
  second component of the state is the log of what each subscriber received, in order.
\<close>

datatype state_event = Fire "32 word" uintptr | Receive nat state_stream

fun state_step ::
  "state_event \<Rightarrow> world \<times> (nat \<times> VirtualMachineState) list
     \<Rightarrow> panic + (world \<times> (nat \<times> VirtualMachineState) list)" where
  "state_step (Fire raw h) (w, rlog) =
     (case changeStateOnObserver raw h w of Inl p \<Rightarrow> Inl p | Inr w' \<Rightarrow> Inr (w', rlog))"
| "state_step (Receive k ch) (w, rlog) =
     (case receive_state ch w of
        Inl p \<Rightarrow> Inl p
      | Inr (Recv x, w') \<Rightarrow> Inr (w', rlog @ [(k, x)])
      | Inr (_, w') \<Rightarrow> Inr (w, rlog))"

text \<open>The raw states the observer was fired with for a handle, in order.\<close>

fun fired :: "uintptr \<Rightarrow> state_event list \<Rightarrow> 32 word list" where
  "fired h [] = []"
| "fired h (Fire raw h' # es) = (if h' = h then raw # fired h es else fired h es)"
| "fired h (Receive k ch # es) = fired h es"

section \<open>Disconnect pipeline\<close>

text \<open>
  Modelled from the spec: \<^verbatim>\<open>sliceutil.FindValueByIndex\<close> (not among the sources) looks the
  device configuration up by index; "deviceConfig is nil if the index cannot be resolved
  against the VM's stored configuration list (e.g., device removed or index out of range)".
\<close>

definition FindValueByIndex :: "'a list \<Rightarrow> int \<Rightarrow> 'a option" where
  "FindValueByIndex xs i =
     (if 0 \<le> i \<and> i < int (length xs) then Some (xs ! nat i) else None)"

datatype disc_stream = DisconnectedOutOut addr

definition NetworkDeviceAttachmentWasDisconnected ::
  "addr \<Rightarrow> world \<Rightarrow> panic + ((disc_stream option \<times> error option) \<times> world)" where
  "NetworkDeviceAttachmentWasDisconnected v w =
     (case macOSAvailable 12 w of
        Some e \<Rightarrow> Inr ((None, Some e), w)
      | None \<Rightarrow>
         (case vms w v of
            None \<Rightarrow> Inl NilDereference
          | Some vm \<Rightarrow>
             Inr ((Some (DisconnectedOutOut v), None),
                  (if watchDisconnectedOnce vm then w
                   else w\<lparr>vms := (vms w)(v \<mapsto> vm\<lparr>watchDisconnectedOnce := True\<rparr>),
                          watchers := watchers w @ [(v, Running)]\<rparr>))))"

text \<open>
  One scheduling step of the goroutine number \<open>i\<close>, which runs \<^verbatim>\<open>v.watchDisconnected()\<close>:
  one iteration of the \<^verbatim>\<open>range\<close> loop when an event is queued, the end of the loop and
  \<^verbatim>\<open>v.disconnectedOut.Close()\<close> when the input is closed and drained, and nothing when
  the loop waits. A goroutine that has returned does nothing.
\<close>

definition watchDisconnected :: "nat \<Rightarrow> world \<Rightarrow> panic + world" where
  "watchDisconnected i w =
     (if i < length (watchers w) then
        (case watchers w ! i of
           (v, Finished) \<Rightarrow> Inr w
         | (v, Running) \<Rightarrow>
            (case vms w v of
               None \<Rightarrow> Inl NilDereference
             | Some vm \<Rightarrow>
                (case chan_recv (disconnectedIn vm) of
                   (Recv d, cin) \<Rightarrow>
                     (case chan_send
                             \<lparr>Err = err d,
                              Config = FindValueByIndex
                                (networkDeviceConfiguration (config vm)) (index d)\<rparr>
                             (disconnectedOut vm) of
                        Inl p \<Rightarrow> Inl p
                      | Inr cout \<Rightarrow>
                         Inr (w\<lparr>vms := (vms w)(v \<mapsto>
                               vm\<lparr>disconnectedIn := cin, disconnectedOut := cout\<rparr>)\<rparr>))
                 | (RecvClosed, cin) \<Rightarrow>
                     (case chan_close (disconnectedOut vm) of
                        Inl p \<Rightarrow> Inl p
                      | Inr cout \<Rightarrow>
                         Inr (w\<lparr>vms := (vms w)(v \<mapsto> vm\<lparr>disconnectedOut := cout\<rparr>),
                                watchers := (watchers w)[i := (v, Finished)]\<rparr>))
                 | (RecvBlocked, cin) \<Rightarrow> Inr w)))
      else Inr w)"

definition emitAttachmentWasDisconnected ::
  "int \<Rightarrow> nat option \<Rightarrow> uintptr \<Rightarrow> world \<Rightarrow> panic + world" where
  "emitAttachmentWasDisconnected idx errPtr cgoHandleUintptr w =
     (case Handle_Value cgoHandleUintptr w of
        Inl p \<Rightarrow> Inl p
      | Inr (HDisconnectedIn a) \<Rightarrow>
          (case vms w a of
             None \<Rightarrow> Inl NilDereference
           | Some vm \<Rightarrow>
              (case chan_send \<lparr>err = as_error (newNSError errPtr), index = idx\<rparr>
                      (disconnectedIn vm) of
                 Inl p \<Rightarrow> Inl p
               | Inr c \<Rightarrow> Inr (w\<lparr>vms := (vms w)(a \<mapsto> vm\<lparr>disconnectedIn := c\<rparr>)\<rparr>)))
      | Inr _ \<Rightarrow> Inl NilDereference)"

definition closeAttachmentWasDisconnectedChannel :: "uintptr \<Rightarrow> world \<Rightarrow> panic + world" where
  "closeAttachmentWasDisconnectedChannel cgoHandleUintptr w =
     (case Handle_Value cgoHandleUintptr w of
        Inl p \<Rightarrow> Inl p
      | Inr (HDisconnectedIn a) \<Rightarrow>
          (case vms w a of
             None \<Rightarrow> Inl NilDereference
           | Some vm \<Rightarrow>
              (case chan_close (disconnectedIn vm) of
                 Inl p \<Rightarrow> Inl p
               | Inr c \<Rightarrow> Inr (w\<lparr>vms := (vms w)(a \<mapsto> vm\<lparr>disconnectedIn := c\<rparr>)\<rparr>)))
      | Inr _ \<Rightarrow> Inl NilDereference)"

text \<open>A consumer's receive on the public stream; what it receives is not kept.\<close>

fun receive_disconnected :: "disc_stream \<Rightarrow> world \<Rightarrow> panic + world" where
  "receive_disconnected (DisconnectedOutOut a) w =
     (case vms w a of
        None \<Rightarrow> Inl NilDereference
      | Some vm \<Rightarrow>
         Inr (w\<lparr>vms := (vms w)(a \<mapsto>
                 vm\<lparr>disconnectedOut := snd (chan_recv (disconnectedOut vm))\<rparr>)\<rparr>))"

text \<open>
  What happens around the pipeline, in any order: a consumer asks for the stream, the
  foreign runtime emits an event or closes the channel through a handle, a goroutine is
  scheduled, a consumer receives.
\<close>

datatype disc_event =
    Subscribe addr
  | Emit int "nat option" uintptr
  | CloseChannel uintptr
  | WorkerStep nat
  | ReceiveOut disc_stream

fun disc_step :: "disc_event \<Rightarrow> world \<Rightarrow> panic + world" where
  "disc_step (Subscribe v) w =
     (case NetworkDeviceAttachmentWasDisconnected v w of
        Inl p \<Rightarrow> Inl p | Inr (r, w') \<Rightarrow> Inr w')"
| "disc_step (Emit idx errPtr h) w = emitAttachmentWasDisconnected idx errPtr h w"
| "disc_step (CloseChannel h) w = closeAttachmentWasDisconnectedChannel h w"
| "disc_step (WorkerStep i) w = watchDisconnected i w"
| "disc_step (ReceiveOut ch) w = receive_disconnected ch w"


section \<open>Completion bridge\<close>

text \<open>
  \<^verbatim>\<open>makeHandler\<close> allocates the channel \<^verbatim>\<open>make(chan error, 1)\<close> and returns it with the
  closure over it; the closure is represented by \<open>HHandler\<close> of the channel's address and
  its body is \<open>handler\<close>.
\<close>

definition makeHandler :: "world \<Rightarrow> addr \<times> world" where
  "makeHandler w =
     (let ch = heapNext w in
      (ch, w\<lparr>heapNext := Suc ch,
              errChans := (errChans w)(ch \<mapsto> \<lparr>buf = [], chClosed = False\<rparr>)\<rparr>))"

text \<open>
  \<^verbatim>\<open>ch <- err; close(ch)\<close>. A send on a closed channel panics; a send on a full open
  channel would wait: the result \<open>None\<close>.
\<close>

definition handler :: "addr \<Rightarrow> error option \<Rightarrow> world \<Rightarrow> panic + world option" where
  "handler ch e w =
     (case errChans w ch of
        None \<Rightarrow> Inl NilDereference
      | Some c \<Rightarrow>
         if chClosed c then Inl SendOnClosedChannel
         else if length (buf c) < 1 then
           Inr (Some (w\<lparr>errChans := (errChans w)(ch \<mapsto>
                          \<lparr>buf = buf c @ [e], chClosed = True\<rparr>)\<rparr>))
         else Inr None)"

definition virtualMachineCompletionHandler ::
  "uintptr \<Rightarrow> nat option \<Rightarrow> world \<Rightarrow> panic + world option" where
  "virtualMachineCompletionHandler cgoHandleUintptr errPtr w =
     (case Handle_Value cgoHandleUintptr w of
        Inl p \<Rightarrow> Inl p
      | Inr (HHandler ch) \<Rightarrow>
          (case newNSError errPtr of
             Some e \<Rightarrow> handler ch (Some e) w
           | None \<Rightarrow> handler ch None w)
      | Inr _ \<Rightarrow> Inl BadTypeAssertion)"

text \<open>
  A control operation runs up to its \<^verbatim>\<open>return <-errCh\<close>: it has either returned
  already, or it waits with its handle and channel. \<open>await\<close> is the rest: the receive
  and the deferred \<^verbatim>\<open>handle.Delete()\<close>; \<open>None\<close> while the receive waits. A receive on a
  closed, empty channel yields the zero value, the nil error.
\<close>

datatype 'a call = Returned 'a | Waiting pending

definition await :: "pending \<Rightarrow> world \<Rightarrow> panic + (error option \<times> world) option" where
  "await p w =
     (case errChans w (p_errCh p) of
        None \<Rightarrow> Inl NilDereference
      | Some c \<Rightarrow>
         (case buf c of
            e # rest \<Rightarrow>
              (case Handle_Delete (p_handle p)
                      (w\<lparr>errChans := (errChans w)(p_errCh p \<mapsto> c\<lparr>buf := rest\<rparr>)\<rparr>) of
                 Inl q \<Rightarrow> Inl q
               | Inr w' \<Rightarrow> Inr (Some (e, w')))
          | [] \<Rightarrow>
              if chClosed c then
                (case Handle_Delete (p_handle p) w of
                   Inl q \<Rightarrow> Inl q
                 | Inr w' \<Rightarrow> Inr (Some (None, w')))
              else Inr None))"

text \<open>
  The lines the four operations share: \<^verbatim>\<open>h, errCh := makeHandler()\<close>,
  \<^verbatim>\<open>handle := cgo.NewHandle(h)\<close>, and the foreign call with the handle.
\<close>

definition with_handler ::
  "addr \<Rightarrow> (nat \<Rightarrow> nat \<Rightarrow> uintptr \<Rightarrow> foreign_call) \<Rightarrow> world
     \<Rightarrow> panic + (error option call \<times> world)" where
  "with_handler v fcall w =
     (case makeHandler w of
        (errCh, w1) \<Rightarrow>
          (case NewHandle (HHandler errCh) w1 of
             Inl p \<Rightarrow> Inl p
           | Inr (handle, w2) \<Rightarrow>
              (case vms w2 v of
                 None \<Rightarrow> Inl NilDereference
               | Some vm \<Rightarrow>
                  Inr (Waiting \<lparr>p_handle = handle, p_errCh = errCh\<rparr>,
                       w2\<lparr>foreignCalls := foreignCalls w2 @
                            [fcall (pointer vm) (dispatchQueue vm) handle]\<rparr>))))"

text \<open>
  \<^verbatim>\<open>virtualMachineStartOptions\<close> has one field, the pointer to the native start options
  (\<open>None\<close> when nil); an option sets it or fails.
\<close>

type_synonym VirtualMachineStartOption = "nat option \<Rightarrow> error + nat option"

fun apply_start_opts ::
  "VirtualMachineStartOption list \<Rightarrow> nat option \<Rightarrow> error + nat option" where
  "apply_start_opts [] o1 = Inr o1"
| "apply_start_opts (optFunc # opts) o1 =
     (case optFunc o1 of Inl e \<Rightarrow> Inl e | Inr o2 \<Rightarrow> apply_start_opts opts o2)"

definition Start ::
  "addr \<Rightarrow> VirtualMachineStartOption list \<Rightarrow> world
     \<Rightarrow> panic + (error option call \<times> world)" where
  "Start v opts w =
     (case apply_start_opts opts None of
        Inl e \<Rightarrow> Inr (Returned (Some e), w)
      | Inr None \<Rightarrow> with_handler v C_startWithCompletionHandler w
      | Inr (Some optsPtr) \<Rightarrow>
          with_handler v (\<lambda>m q. C_startWithOptionsCompletionHandler m q optsPtr) w)"

definition Pause :: "addr \<Rightarrow> world \<Rightarrow> panic + (error option call \<times> world)" where
  "Pause v w = with_handler v C_pauseWithCompletionHandler w"

definition Resume :: "addr \<Rightarrow> world \<Rightarrow> panic + (error option call \<times> world)" where
  "Resume v w = with_handler v C_resumeWithCompletionHandler w"

definition Stop :: "addr \<Rightarrow> world \<Rightarrow> panic + (error option call \<times> world)" where
  "Stop v w =
     (case macOSAvailable 12 w of
        Some e \<Rightarrow> Inr (Returned (Some e), w)
      | None \<Rightarrow> with_handler v C_stopWithCompletionHandler w)"

text \<open>
  Concurrent use of the bridge, as a sequence of atomic events: a consumer goroutine
  invokes an operation on a machine (getting the next call number), the foreign runtime
  calls the completion entry point with a handle and an error pointer, or the scheduler
  lets a waiting call try its receive. The state is the world and, by call number, what
  each call is doing: waiting, or returned with its value (and, when it went through the
  bridge, the handle and channel it had). A receive that waits, and a completion whose
  send would wait, leave the state as it is.
\<close>

datatype control_op = OpStart "VirtualMachineStartOption list" | OpPause | OpResume | OpStop

datatype bridge_event =
    Invoke addr control_op
  | Complete uintptr "nat option"
  | Return nat

datatype call_state = CWaiting pending | CReturned "pending option" "error option"

fun control :: "control_op \<Rightarrow> addr \<Rightarrow> world \<Rightarrow> panic + (error option call \<times> world)" where
  "control (OpStart opts) v w = Start v opts w"
| "control OpPause v w = Pause v w"
| "control OpResume v w = Resume v w"
| "control OpStop v w = Stop v w"

fun bridge_step ::
  "bridge_event \<Rightarrow> world \<times> call_state list \<Rightarrow> panic + (world \<times> call_state list)" where
  "bridge_step (Invoke v op) (w, cs) =
     (case control op v w of
        Inl p \<Rightarrow> Inl p
      | Inr (Returned e, w') \<Rightarrow> Inr (w', cs @ [CReturned None e])
      | Inr (Waiting p, w') \<Rightarrow> Inr (w', cs @ [CWaiting p]))"
| "bridge_step (Complete h errPtr) (w, cs) =
     (case virtualMachineCompletionHandler h errPtr w of
        Inl p \<Rightarrow> Inl p
      | Inr None \<Rightarrow> Inr (w, cs)
      | Inr (Some w') \<Rightarrow> Inr (w', cs))"
| "bridge_step (Return i) (w, cs) =
     (if i < length cs then
        (case cs ! i of
           CWaiting p \<Rightarrow>
             (case await p w of
                Inl q \<Rightarrow> Inl q
              | Inr None \<Rightarrow> Inr (w, cs)
              | Inr (Some (e, w')) \<Rightarrow> Inr (w', cs[i := CReturned (Some p) e]))
         | CReturned p e \<Rightarrow> Inr (w, cs))
      else Inr (w, cs))"

section \<open>Concrete worlds\<close>

text \<open>
  A machine with two network devices, created on macOS 12 in the empty world, and the
  worlds it goes through below.
\<close>

definition demo_cfg :: VirtualMachineConfiguration where
  "demo_cfg = \<lparr>networkDeviceConfiguration = [7, 8]\<rparr>"

definition demo_vm :: VirtualMachine where
  "demo_vm =
     \<lparr>vm_id = ''vm-0'', pointer = 200, dispatchQueue = 100,
      machineState = \<lparr>state = 0, stateNotify = NewChannel\<rparr>,
      disconnectedIn = NewChannel, disconnectedOut = NewChannel,
      watchDisconnectedOnce = False, finalizeOnce = False,
      config = demo_cfg, hasGUIWindow = False, windowClosedHandle = 0\<rparr>"

definition vm_world :: world where
  "vm_world =
     \<lparr>macOSVersion = 12, hasVirtualMachineWindow = False, handleIdx = 2,
      handles = [1 \<mapsto> HMachineState 0, 2 \<mapsto> HDisconnectedIn 0],
      heapNext = 1, vms = [0 \<mapsto> demo_vm], errChans = Map.empty,
      watchers = [], foreignCalls = []\<rparr>"

definition gui_world :: world where
  "gui_world =
     vm_world\<lparr>handleIdx := 3,
              handles := [1 \<mapsto> HMachineState 0, 2 \<mapsto> HDisconnectedIn 0,
                          3 \<mapsto> HVirtualMachine 0],
              vms := [0 \<mapsto> demo_vm\<lparr>hasGUIWindow := True, windowClosedHandle := 3\<rparr>],
              foreignCalls :=
                [C_startVirtualMachineWindow 200 100 800 600 [] False 3 True]\<rparr>"

definition gui_world2 :: world where
  "gui_world2 =
     vm_world\<lparr>handleIdx := 4,
              handles := [1 \<mapsto> HMachineState 0, 2 \<mapsto> HDisconnectedIn 0,
                          3 \<mapsto> HVirtualMachine 0, 4 \<mapsto> HVirtualMachine 0],
              vms := [0 \<mapsto> demo_vm\<lparr>hasGUIWindow := True, windowClosedHandle := 4\<rparr>],
              foreignCalls :=
                [C_startVirtualMachineWindow 200 100 800 600 [] False 3 True,
                 C_startVirtualMachineWindow 200 100 800 600 [] False 4 True]\<rparr>"

definition leaked_world :: world where
  "leaked_world =
     gui_world2\<lparr>handles := [1 \<mapsto> HMachineState 0, 2 \<mapsto> HDisconnectedIn 0,
                            3 \<mapsto> HVirtualMachine 0],
                vms := [0 \<mapsto> demo_vm\<lparr>hasGUIWindow := True, finalizeOnce := True\<rparr>],
                foreignCalls :=
                  [C_startVirtualMachineWindow 200 100 800 600 [] False 3 True,
                   C_startVirtualMachineWindow 200 100 800 600 [] False 4 True,
                   C_ReleaseDispatch 100, C_Release 200]\<rparr>"



definition finalized_world :: world where
  "finalized_world =
     gui_world\<lparr>handles := [1 \<mapsto> HMachineState 0, 2 \<mapsto> HDisconnectedIn 0],
               vms := [0 \<mapsto> demo_vm\<lparr>hasGUIWindow := True, finalizeOnce := True\<rparr>],
               foreignCalls :=
                 [C_startVirtualMachineWindow 200 100 800 600 [] False 3 True,
                  C_ReleaseDispatch 100, C_Release 200]\<rparr>"

definition running_world :: world where
  "running_world =
     vm_world\<lparr>vms := [0 \<mapsto> demo_vm\<lparr>machineState := \<lparr>state = 1, stateNotify = NewChannel\<rparr>\<rparr>]\<rparr>"

definition demo_state_events :: "state_event list" where
  "demo_state_events =
     [Fire 4 1, Receive 5 (StateNotifyOut 0), Fire 1 1, Fire 1 1,
      Receive 5 (StateNotifyOut 0), Receive 5 (StateNotifyOut 0),
      Receive 5 (StateNotifyOut 0)]"

definition watching_world :: world where
  "watching_world =
     vm_world\<lparr>vms := [0 \<mapsto> demo_vm\<lparr>watchDisconnectedOnce := True,
                 disconnectedIn := \<lparr>queue = [\<lparr>err = Some (NSError 5), index = 1\<rparr>,
                                             \<lparr>err = Some NilNSError, index = 2\<rparr>,
                                             \<lparr>err = Some NilNSError, index = - 1\<rparr>,
                                             \<lparr>err = Some NilNSError, index = 0\<rparr>],
                                    inClosed = False\<rparr>\<rparr>],
              watchers := [(0, Running)]\<rparr>"

definition drained_world :: world where
  "drained_world =
     vm_world\<lparr>vms := [0 \<mapsto> demo_vm\<lparr>watchDisconnectedOnce := True,
                 disconnectedOut := \<lparr>queue = [\<lparr>Err = Some (NSError 5), Config = Some 8\<rparr>,
                                              \<lparr>Err = Some NilNSError, Config = None\<rparr>,
                                              \<lparr>Err = Some NilNSError, Config = None\<rparr>,
                                              \<lparr>Err = Some NilNSError, Config = Some 7\<rparr>],
                                     inClosed = False\<rparr>\<rparr>],
              watchers := [(0, Running)]\<rparr>"



definition bridged_world :: world where
  "bridged_world =
     vm_world\<lparr>handleIdx := 4, heapNext := 3,
              errChans := [1 \<mapsto> \<lparr>buf = [], chClosed = True\<rparr>,
                           2 \<mapsto> \<lparr>buf = [], chClosed = True\<rparr>],
              foreignCalls := [C_pauseWithCompletionHandler 200 100 3,
                               C_resumeWithCompletionHandler 200 100 4]\<rparr>"

definition demo_bridge_events :: "bridge_event list" where
  "demo_bridge_events =
     [Invoke 0 OpPause, Invoke 0 OpResume, Complete 4 (Some 9), Return 0,
      Complete 3 None, Return 0, Return 1]"

section \<open>Invariants\<close>

text \<open>
  The handle table of \<^verbatim>\<open>runtime/cgo\<close>: every registered handle is non-zero and at most
  the counter, so the next handle is new.
\<close>

definition handles_wf :: "world \<Rightarrow> bool" where
  "handles_wf w \<longleftrightarrow> (\<forall>h. handles w h \<noteq> None \<longrightarrow> h \<noteq> 0 \<and> h \<le> handleIdx w)"

text \<open>What the subscriber \<open>k\<close> has received, from the log of all receives.\<close>

definition received_by :: "nat \<Rightarrow> (nat \<times> VirtualMachineState) list \<Rightarrow> VirtualMachineState list" where
  "received_by k rlog = map snd (filter (\<lambda>x. fst x = k) rlog)"

text \<open>An event on the machine at \<open>a\<close>, whose state handle is \<open>h\<close>.\<close>

definition on_machine :: "uintptr \<Rightarrow> addr \<Rightarrow> state_event \<Rightarrow> bool" where
  "on_machine h a e \<longleftrightarrow>
     (case e of Fire raw h' \<Rightarrow> h' = h | Receive k ch \<Rightarrow> ch = StateNotifyOut a)"



text \<open>
  The invariant of the completion bridge. \<open>completions h\<close> lists the error pointers
  the completion entry point was called with for the handle \<open>h\<close>, in order. A waiting
  call owns its handle and its channel, and the channel is either new with no completion
  fired, or closed with the one fired error in it; a returned call's handle is deleted and
  its value is the error of the one completion fired for it. The handles and channels of
  different calls differ, and only handles up to the counter have been completed.
\<close>

fun completions :: "uintptr \<Rightarrow> bridge_event list \<Rightarrow> nat option list" where
  "completions h [] = []"
| "completions h (Complete h' errPtr # es) =
     (if h' = h then errPtr # completions h es else completions h es)"
| "completions h (e # es) = completions h es"

definition call_pending :: "call_state \<Rightarrow> pending option" where
  "call_pending c = (case c of CWaiting q \<Rightarrow> Some q | CReturned po r \<Rightarrow> po)"

definition bridge_wf :: "world \<Rightarrow> bool" where
  "bridge_wf w \<longleftrightarrow>
     handles_wf w \<and> (\<forall>h c. handles w h = Some (HHandler c) \<longrightarrow> c < heapNext w)"

definition chan_state_ok :: "nat option list \<Rightarrow> errchan option \<Rightarrow> bool" where
  "chan_state_ok es c \<longleftrightarrow>
     (es = [] \<and> c = Some \<lparr>buf = [], chClosed = False\<rparr>) \<or>
     (\<exists>e. es = [e] \<and> c = Some \<lparr>buf = [newNSError e], chClosed = True\<rparr>)"

definition call_inv :: "bridge_event list \<Rightarrow> world \<Rightarrow> call_state \<Rightarrow> bool" where
  "call_inv evs w c \<longleftrightarrow>
     (case c of
        CWaiting q \<Rightarrow>
          handles w (p_handle q) = Some (HHandler (p_errCh q)) \<and>
          (\<forall>h. handles w h = Some (HHandler (p_errCh q)) \<longrightarrow> h = p_handle q) \<and>
          chan_state_ok (completions (p_handle q) evs) (errChans w (p_errCh q))
      | CReturned None r \<Rightarrow> True
      | CReturned (Some q) r \<Rightarrow>
          handles w (p_handle q) = None \<and>
          (\<exists>e. completions (p_handle q) evs = [e] \<and> r = newNSError e))"

definition pending_bounds :: "world \<Rightarrow> call_state \<Rightarrow> bool" where
  "pending_bounds w c \<longleftrightarrow>
     (\<forall>q. call_pending c = Some q \<longrightarrow>
        p_handle q \<noteq> 0 \<and> p_handle q \<le> handleIdx w \<and> p_errCh q < heapNext w)"

definition pending_distinct :: "call_state list \<Rightarrow> bool" where
  "pending_distinct cs \<longleftrightarrow>
     (\<forall>j k q q'. j < length cs \<and> k < length cs \<and> j \<noteq> k \<and>
        call_pending (cs ! j) = Some q \<and> call_pending (cs ! k) = Some q' \<longrightarrow>
        p_handle q \<noteq> p_handle q' \<and> p_errCh q \<noteq> p_errCh q')"

definition bridge_inv :: "bridge_event list \<Rightarrow> world \<Rightarrow> call_state list \<Rightarrow> bool" where
  "bridge_inv evs w cs \<longleftrightarrow>
     bridge_wf w \<and>
     (\<forall>j. j < length cs \<longrightarrow> call_inv evs w (cs ! j) \<and> pending_bounds w (cs ! j)) \<and>
     pending_distinct cs \<and>
     (\<forall>h. completions h evs \<noteq> [] \<longrightarrow> h \<le> handleIdx w)"

section \<open>New handles are new\<close>

lemma vm_world_created:
  "NewVirtualMachine demo_cfg ''vm-0'' 100 200 (world0 12) = Inr ((Some 0, None), vm_world)"
  by (simp add: NewVirtualMachine_def macOSAvailable_def world0_def NewHandle_def
      vm_world_def demo_vm_def Let_def)

lemma gui_world_started:
  "StartGraphicApplication 0 800 600 [] vm_world = Inr (None, gui_world)"
  by (simp add: StartGraphicApplication_def macOSAvailable_def NewHandle_def
      vm_world_def gui_world_def demo_vm_def Let_def)

lemma word_succ_greater: "(x::uintptr) + 1 \<noteq> 0 \<Longrightarrow> x < x + 1"
  using unatSuc[of x] by (simp add: word_less_nat_alt add.commute)

lemma NewHandle_Inr:
  "NewHandle x w = Inr (h, w') \<longleftrightarrow>
     h = handleIdx w + 1 \<and> h \<noteq> 0 \<and> w' = w\<lparr>handleIdx := h, handles := (handles w)(h \<mapsto> x)\<rparr>"
  by (auto simp: NewHandle_def Let_def)

lemma NewHandle_Inl: "NewHandle x w = Inl p \<longleftrightarrow> handleIdx w + 1 = 0 \<and> p = HandleSpaceExhausted"
  by (auto simp: NewHandle_def Let_def)

lemma handles_wf_fresh:
  assumes "handles_wf w" "handleIdx w + 1 \<noteq> 0"
  shows "handles w (handleIdx w + 1) = None"
proof (rule ccontr)
  assume "handles w (handleIdx w + 1) \<noteq> None"
  with assms(1) have "handleIdx w + 1 \<le> handleIdx w" by (simp add: handles_wf_def)
  with word_succ_greater[OF assms(2)] show False by simp
qed

lemma handles_wf_NewHandle:
  assumes "handles_wf w" "handleIdx w + 1 \<noteq> 0"
  shows "handles_wf (w\<lparr>handleIdx := handleIdx w + 1,
                       handles := (handles w)(handleIdx w + 1 \<mapsto> x)\<rparr>)"
  unfolding handles_wf_def
proof (intro allI impI)
  fix h
  assume h: "handles (w\<lparr>handleIdx := handleIdx w + 1,
                       handles := (handles w)(handleIdx w + 1 \<mapsto> x)\<rparr>) h \<noteq> None"
  show "h \<noteq> 0 \<and> h \<le> handleIdx (w\<lparr>handleIdx := handleIdx w + 1,
                       handles := (handles w)(handleIdx w + 1 \<mapsto> x)\<rparr>)"
  proof (cases "h = handleIdx w + 1")
    case True
    with assms(2) show ?thesis by simp
  next
    case False
    with h have "handles w h \<noteq> None" by simp
    with assms(1) have "h \<noteq> 0" "h \<le> handleIdx w" by (simp_all add: handles_wf_def)
    with word_succ_greater[OF assms(2)] show ?thesis by simp
  qed
qed

section \<open>Window lifecycle: the claims\<close>

text \<open>
  Claim C10. The window-closed callback called with token 0, or with a token whose
  registered value is not a virtual machine, returns with the world (and so the handle
  table) unchanged; called with the non-zero token of a machine, it sets that machine's
  \<open>hasGUIWindow\<close> to false and changes nothing else in the world.
\<close>

theorem notifyWindowClosed_effect:
  "notifyWindowClosed 0 w = Inr w \<and>
   (\<forall>h x. handles w h = Some x \<and> (\<forall>a. x \<noteq> HVirtualMachine a)
        \<longrightarrow> notifyWindowClosed h w = Inr w) \<and>
   (\<forall>h a vm. h \<noteq> 0 \<and> handles w h = Some (HVirtualMachine a) \<and> vms w a = Some vm
        \<longrightarrow> notifyWindowClosed h w =
              Inr (w\<lparr>vms := (vms w)(a \<mapsto> vm\<lparr>hasGUIWindow := False\<rparr>)\<rparr>))"
  by (auto simp: notifyWindowClosed_def Handle_Value_def split: hvalue.splits)

text \<open>
  The three cases on the world with an open window: token 0, the token of the machine
  state, and the token of the machine.
\<close>

theorem notifyWindowClosed_effect_witness:
  "notifyWindowClosed 0 gui_world = Inr gui_world \<and>
   notifyWindowClosed 1 gui_world = Inr gui_world \<and>
   notifyWindowClosed 3 gui_world =
     Inr (gui_world\<lparr>vms := [0 \<mapsto> demo_vm\<lparr>hasGUIWindow := False, windowClosedHandle := 3\<rparr>]\<rparr>)"
proof -
  have a: "handles gui_world 1 = Some (HMachineState 0) \<and> (\<forall>a. HMachineState 0 \<noteq> HVirtualMachine a)"
    by (simp add: gui_world_def)
  have b: "(3::uintptr) \<noteq> 0 \<and> handles gui_world 3 = Some (HVirtualMachine 0) \<and>
        vms gui_world 0 = Some (demo_vm\<lparr>hasGUIWindow := True, windowClosedHandle := 3\<rparr>)"
    by (simp add: gui_world_def)
  from notifyWindowClosed_effect[of gui_world] a b
  have "notifyWindowClosed 0 gui_world = Inr gui_world \<and>
   notifyWindowClosed 1 gui_world = Inr gui_world \<and>
   notifyWindowClosed 3 gui_world =
     Inr (gui_world\<lparr>vms := (vms gui_world)(0 \<mapsto> demo_vm\<lparr>hasGUIWindow := True, windowClosedHandle := 3\<rparr>\<lparr>hasGUIWindow := False\<rparr>)\<rparr>)"
    by blast
  then show ?thesis by (simp add: gui_world_def vm_world_def demo_vm_def)
qed

text \<open>
  Claim C2. \<^verbatim>\<open>StartGraphicApplication\<close> has no check of the dimensions: with width 0 and
  height 600, and with width 800 and height 0, on macOS 12 it returns nil, registers a
  handle, sets \<open>hasGUIWindow\<close> and issues the window-creation call with those dimensions.
\<close>

theorem StartGraphicApplication_no_validation:
  "StartGraphicApplication 0 0 600 [] vm_world =
     Inr (None,
          gui_world\<lparr>foreignCalls := [C_startVirtualMachineWindow 200 100 0 600 [] False 3 True]\<rparr>) \<and>
   StartGraphicApplication 0 800 0 [] vm_world =
     Inr (None,
          gui_world\<lparr>foreignCalls := [C_startVirtualMachineWindow 200 100 800 0 [] False 3 True]\<rparr>)"
  by (simp add: StartGraphicApplication_def macOSAvailable_def NewHandle_def
      vm_world_def gui_world_def demo_vm_def Let_def)

lemma gui_world2_started:
  "StartGraphicApplication 0 800 600 [] gui_world = Inr (None, gui_world2)"
  by (simp add: StartGraphicApplication_def macOSAvailable_def NewHandle_def
      vm_world_def gui_world_def gui_world2_def demo_vm_def Let_def)

lemma handles_wf_vm_world: "handles_wf vm_world"
  by (simp add: handles_wf_def vm_world_def)

lemma handles_wf_gui_world: "handles_wf gui_world"
  by (auto simp: handles_wf_def vm_world_def gui_world_def split: if_splits)

lemma leaked_world_finalized: "finalize 0 gui_world2 = Inr leaked_world"
  by (auto simp: finalize_def Handle_Delete_def gui_world2_def leaked_world_def
      vm_world_def demo_vm_def fun_eq_iff)

text \<open>
  Claim C7. The window-close token is not allocated by the first
  \<^verbatim>\<open>StartGraphicApplication\<close> only: the call registers a new handle every time. A second
  call on the same machine registers token 4 and stores it over token 3, and
  \<^verbatim>\<open>finalize\<close>, which deletes the stored token only, leaves token 3 registered for
  good, although \<^verbatim>\<open>notifyWindowClosed\<close> documents the token as managed by
  \<^verbatim>\<open>VirtualMachine.finalize()\<close>.
\<close>

theorem second_start_leaks_token:
  "StartGraphicApplication 0 800 600 [] vm_world = Inr (None, gui_world) \<and>
   StartGraphicApplication 0 800 600 [] gui_world = Inr (None, gui_world2) \<and>
   map_option windowClosedHandle (vms gui_world 0) = Some 3 \<and>
   map_option windowClosedHandle (vms gui_world2 0) = Some 4 \<and>
   handles gui_world 4 = None \<and>
   handles gui_world2 4 = Some (HVirtualMachine 0) \<and>
   finalize 0 gui_world2 = Inr leaked_world \<and>
   handles leaked_world 4 = None \<and>
   handles leaked_world 3 = Some (HVirtualMachine 0)"
  using gui_world_started gui_world2_started leaked_world_finalized
  by (simp add: gui_world_def gui_world2_def leaked_world_def vm_world_def demo_vm_def)




lemma NewVirtualMachine_window_fields:
  assumes "NewVirtualMachine cfg uuid dq native w = Inr ((Some v, None), w')"
  shows "\<exists>vm. vms w' v = Some vm \<and> \<not> hasGUIWindow vm \<and> windowClosedHandle vm = 0
           \<and> \<not> finalizeOnce vm \<and> \<not> watchDisconnectedOnce vm"
  using assms
  by (auto simp: NewVirtualMachine_def NewHandle_def Let_def
      split: option.splits if_splits)



lemma run_replicate_fixed:
  "step e s = Inr s \<Longrightarrow> run step (replicate n e) s = Inr s"
  by (induction n) simp_all

section \<open>Teardown\<close>

text \<open>
  Claim C6. On a machine that is not yet finalized, \<^verbatim>\<open>finalize\<close> runs the guarded block:
  it deletes the window-closed handle when there is one and issues the two release calls,
  once. A second \<^verbatim>\<open>finalize\<close>, and any number of further ones, changes nothing; nor does
  \<^verbatim>\<open>finalize\<close> in any later world in which the machine's once-flag is set.
  (\<^verbatim>\<open>sync.Once\<close> serialises concurrent callers, so two concurrent calls are two calls in
  some order.)
\<close>

theorem finalize_once:
  assumes "vms w v = Some vm" and "\<not> finalizeOnce vm"
    and "windowClosedHandle vm = 0 \<or> handles w (windowClosedHandle vm) \<noteq> None"
  shows "\<exists>w1. finalize v w = Inr w1 \<and> finalize v w1 = Inr w1 \<and>
           foreignCalls w1 =
             foreignCalls w @ [C_ReleaseDispatch (dispatchQueue vm), C_Release (pointer vm)] \<and>
           handles w1 =
             (if windowClosedHandle vm = 0 then handles w
              else (handles w)(windowClosedHandle vm := None)) \<and>
           vms w1 = (vms w)(v \<mapsto> vm\<lparr>windowClosedHandle := 0, finalizeOnce := True\<rparr>) \<and>
           (\<forall>n. run (\<lambda>u::unit. finalize v) (replicate n ()) w1 = Inr w1) \<and>
           (\<forall>w' vm'. vms w' v = Some vm' \<and> finalizeOnce vm' \<longrightarrow> finalize v w' = Inr w')"
proof -
  let ?w0 = "if windowClosedHandle vm = 0 then w
             else w\<lparr>handles := (handles w)(windowClosedHandle vm := None)\<rparr>"
  let ?w1 = "?w0\<lparr>vms := (vms ?w0)(v \<mapsto> vm\<lparr>windowClosedHandle := 0, finalizeOnce := True\<rparr>),
                 foreignCalls := foreignCalls ?w0 @
                   [C_ReleaseDispatch (dispatchQueue vm), C_Release (pointer vm)]\<rparr>"
  have f: "finalize v w = Inr ?w1"
    using assms by (auto simp: finalize_def Handle_Delete_def)
  have again: "finalize v ?w1 = Inr ?w1" by (simp add: finalize_def)
  have rep: "run (\<lambda>u::unit. finalize v) (replicate n ()) ?w1 = Inr ?w1" for n
    by (rule run_replicate_fixed) (rule again)
  have fc: "foreignCalls ?w1 =
      foreignCalls w @ [C_ReleaseDispatch (dispatchQueue vm), C_Release (pointer vm)]"
    by simp
  have hs: "handles ?w1 = (if windowClosedHandle vm = 0 then handles w
              else (handles w)(windowClosedHandle vm := None))"
    by simp
  have vs: "vms ?w1 = (vms w)(v \<mapsto> vm\<lparr>windowClosedHandle := 0, finalizeOnce := True\<rparr>)"
    by simp
  have later: "\<forall>w' vm'. vms w' v = Some vm' \<and> finalizeOnce vm' \<longrightarrow> finalize v w' = Inr w'"
    by (simp add: finalize_def)
  from f again rep fc hs vs later show ?thesis by blast
qed

text \<open>Teardown of the machine with an open window, twice.\<close>

theorem finalize_once_witness:
  "finalize 0 gui_world = Inr finalized_world \<and>
   finalize 0 finalized_world = Inr finalized_world \<and>
   run (\<lambda>u::unit. finalize 0) [(), ()] gui_world = Inr finalized_world"
proof -
  have h: "vms gui_world 0 = Some (demo_vm\<lparr>hasGUIWindow := True, windowClosedHandle := 3\<rparr>)"
    "\<not> finalizeOnce (demo_vm\<lparr>hasGUIWindow := True, windowClosedHandle := 3\<rparr>)"
    "windowClosedHandle (demo_vm\<lparr>hasGUIWindow := True, windowClosedHandle := 3\<rparr>) = 0 \<or>
     handles gui_world (windowClosedHandle (demo_vm\<lparr>hasGUIWindow := True, windowClosedHandle := 3\<rparr>)) \<noteq> None"
    by (simp_all add: gui_world_def demo_vm_def)
  from finalize_once[OF h] obtain w1 where
    r: "finalize 0 gui_world = Inr w1" "finalize 0 w1 = Inr w1"
      "\<forall>n. run (\<lambda>u::unit. finalize 0) (replicate n ()) w1 = Inr w1"
    by blast
  have "finalize 0 gui_world = Inr finalized_world"
    by (auto simp: finalize_def Handle_Delete_def gui_world_def vm_world_def demo_vm_def
        finalized_world_def fun_eq_iff)
  with r have e: "w1 = finalized_world" by simp
  with r(1,2) show ?thesis by simp
qed

section \<open>State channel: the claims\<close>

lemma changeStateOnObserver_Inr:
  assumes "handles w h = Some (HMachineState a)" "vms w a = Some vm"
    "\<not> inClosed (stateNotify (machineState vm))"
  shows "changeStateOnObserver raw h w =
     Inr (w\<lparr>vms := (vms w)(a \<mapsto> vm\<lparr>machineState :=
            \<lparr>state = sint raw,
             stateNotify = (stateNotify (machineState vm))
               \<lparr>queue := queue (stateNotify (machineState vm)) @ [sint raw]\<rparr>\<rparr>\<rparr>)\<rparr>)"
  using assms
  by (simp add: changeStateOnObserver_def Handle_Value_def chan_send_def Let_def)

lemma state_run_inv:
  assumes "handles w h = Some (HMachineState a)" "vms w a = Some vm"
    "\<not> inClosed (stateNotify (machineState vm))"
    "\<forall>e\<in>set evs. on_machine h a e"
  shows "\<exists>w' rlog' vm'. run state_step evs (w, rlog) = Inr (w', rlog') \<and>
           vms w' a = Some vm' \<and>
           state (machineState vm') =
             (if fired h evs = [] then state (machineState vm)
              else sint (last (fired h evs))) \<and>
           map snd rlog' @ queue (stateNotify (machineState vm')) =
             map snd rlog @ queue (stateNotify (machineState vm)) @ map sint (fired h evs) \<and>
           (\<forall>x\<in>set rlog'. x \<in> set rlog \<or> (\<exists>ch. Receive (fst x) ch \<in> set evs))"
  using assms
proof (induction evs arbitrary: w rlog vm)
  case Nil
  then show ?case by simp
next
  case (Cons e evs)
  show ?case
  proof (cases e)
    case (Fire raw h')
    with Cons.prems(4) have hh: "h' = h" by (simp add: on_machine_def)
    let ?vm1 = "vm\<lparr>machineState :=
            \<lparr>state = sint raw,
             stateNotify = (stateNotify (machineState vm))
               \<lparr>queue := queue (stateNotify (machineState vm)) @ [sint raw]\<rparr>\<rparr>\<rparr>"
    let ?w1 = "w\<lparr>vms := (vms w)(a \<mapsto> ?vm1)\<rparr>"
    have step: "state_step e (w, rlog) = Inr (?w1, rlog)"
      using changeStateOnObserver_Inr[OF Cons.prems(1-3), of raw] Fire hh by simp
    have p: "handles ?w1 h = Some (HMachineState a)" "vms ?w1 a = Some ?vm1"
      "\<not> inClosed (stateNotify (machineState ?vm1))"
      "\<forall>e\<in>set evs. on_machine h a e"
      using Cons.prems by simp_all
    from Cons.IH[OF p, of rlog] obtain w' rlog' vm' where
      r: "run state_step evs (?w1, rlog) = Inr (w', rlog')" "vms w' a = Some vm'"
        "state (machineState vm') =
             (if fired h evs = [] then state (machineState ?vm1)
              else sint (last (fired h evs)))"
        "map snd rlog' @ queue (stateNotify (machineState vm')) =
             map snd rlog @ queue (stateNotify (machineState ?vm1)) @ map sint (fired h evs)"
        "\<forall>x\<in>set rlog'. x \<in> set rlog \<or> (\<exists>ch. Receive (fst x) ch \<in> set evs)"
      by blast
    have "run state_step (e # evs) (w, rlog) = Inr (w', rlog')"
      using step r(1) by simp
    moreover have "state (machineState vm') =
             (if fired h (e # evs) = [] then state (machineState vm)
              else sint (last (fired h (e # evs))))"
      using r(3) Fire hh by simp
    moreover have "map snd rlog' @ queue (stateNotify (machineState vm')) =
             map snd rlog @ queue (stateNotify (machineState vm)) @ map sint (fired h (e # evs))"
      using r(4) Fire hh by simp
    moreover have "\<forall>x\<in>set rlog'. x \<in> set rlog \<or> (\<exists>ch. Receive (fst x) ch \<in> set (e # evs))"
      using r(5) by auto
    ultimately show ?thesis using r(2) by blast
  next
    case (Receive j ch)
    with Cons.prems(4) have ch: "ch = StateNotifyOut a" by (simp add: on_machine_def)
    show ?thesis
    proof (cases "queue (stateNotify (machineState vm))")
      case Nil
      let ?w1 = "w\<lparr>vms := (vms w)(a \<mapsto> vm\<lparr>machineState := (machineState vm)
                  \<lparr>stateNotify := stateNotify (machineState vm)\<rparr>\<rparr>)\<rparr>"
      have step: "state_step e (w, rlog) = Inr (w, rlog)"
        using Receive ch Nil Cons.prems(2,3) by (simp add: chan_recv_def)
      from Cons.IH[OF Cons.prems(1-3), of rlog] Cons.prems(4) obtain w' rlog' vm' where
        r: "run state_step evs (w, rlog) = Inr (w', rlog')" "vms w' a = Some vm'"
        "state (machineState vm') =
             (if fired h evs = [] then state (machineState vm)
              else sint (last (fired h evs)))"
        "map snd rlog' @ queue (stateNotify (machineState vm')) =
             map snd rlog @ queue (stateNotify (machineState vm)) @ map sint (fired h evs)"
        "\<forall>x\<in>set rlog'. x \<in> set rlog \<or> (\<exists>ch. Receive (fst x) ch \<in> set evs)"
        by auto
      have "run state_step (e # evs) (w, rlog) = Inr (w', rlog')"
        using step r(1) by simp
      moreover have "\<forall>x\<in>set rlog'. x \<in> set rlog \<or> (\<exists>ch. Receive (fst x) ch \<in> set (e # evs))"
        using r(5) by auto
      ultimately show ?thesis using r(2,3,4) Receive by auto
    next
      case (Cons x xs)
      let ?vm1 = "vm\<lparr>machineState := (machineState vm)
                  \<lparr>stateNotify := (stateNotify (machineState vm))\<lparr>queue := xs\<rparr>\<rparr>\<rparr>"
      let ?w1 = "w\<lparr>vms := (vms w)(a \<mapsto> ?vm1)\<rparr>"
      have step: "state_step e (w, rlog) = Inr (?w1, rlog @ [(j, x)])"
        using Receive ch Cons Cons.prems(2,3) by (simp add: chan_recv_def)
      have p: "handles ?w1 h = Some (HMachineState a)" "vms ?w1 a = Some ?vm1"
        "\<not> inClosed (stateNotify (machineState ?vm1))"
        "\<forall>e\<in>set evs. on_machine h a e"
        using Cons.prems by simp_all
      from Cons.IH[OF p, of "rlog @ [(j, x)]"] obtain w' rlog' vm' where
        r: "run state_step evs (?w1, rlog @ [(j, x)]) = Inr (w', rlog')" "vms w' a = Some vm'"
        "state (machineState vm') =
             (if fired h evs = [] then state (machineState ?vm1)
              else sint (last (fired h evs)))"
        "map snd rlog' @ queue (stateNotify (machineState vm')) =
             map snd (rlog @ [(j, x)]) @ queue (stateNotify (machineState ?vm1)) @ map sint (fired h evs)"
        "\<forall>y\<in>set rlog'. y \<in> set (rlog @ [(j, x)]) \<or> (\<exists>ch. Receive (fst y) ch \<in> set evs)"
        by blast
      have "run state_step (e # evs) (w, rlog) = Inr (w', rlog')"
        using step r(1) by simp
      moreover have "state (machineState vm') =
             (if fired h (e # evs) = [] then state (machineState vm)
              else sint (last (fired h (e # evs))))"
        using r(3) Receive by simp
      moreover have "map snd rlog' @ queue (stateNotify (machineState vm')) =
             map snd rlog @ queue (stateNotify (machineState vm)) @ map sint (fired h (e # evs))"
        using r(4) Receive Cons by simp
      moreover have "\<forall>y\<in>set rlog'. y \<in> set rlog \<or> (\<exists>ch. Receive (fst y) ch \<in> set (e # evs))"
      proof
        fix y assume "y \<in> set rlog'"
        with r(5) have "y \<in> set (rlog @ [(j, x)]) \<or> (\<exists>ch. Receive (fst y) ch \<in> set evs)"
          by blast
        then consider "y \<in> set rlog" | "y = (j, x)" | "\<exists>ch. Receive (fst y) ch \<in> set evs"
          by auto
        then show "y \<in> set rlog \<or> (\<exists>ch. Receive (fst y) ch \<in> set (e # evs))"
        proof cases
          case 2
          then have "Receive (fst y) ch \<in> set (e # evs)" using Receive by simp
          then show ?thesis by blast
        qed auto
      qed
      ultimately show ?thesis using r(2) by blast
    qed
  qed
qed


lemma demo_state_events_run:
  "run state_step demo_state_events (vm_world, []) =
     Inr (running_world, [(5, 4), (5, 1), (5, 1)])"
  by (simp add: demo_state_events_def changeStateOnObserver_def Handle_Value_def
      chan_send_def chan_recv_def vm_world_def demo_vm_def running_world_def NewChannel_def
      Let_def)

text \<open>
  Claim C3 says that a subscriber whose channel was obtained before the first callback
  receives exactly the \<open>N\<close> notifications. The channel is the one output channel of
  \<^verbatim>\<open>stateNotify\<close>, which every caller of \<^verbatim>\<open>StateChangedNotify\<close> gets: with subscribers 7
  and 8 both holding it before the first of two callbacks, subscriber 8 receives both
  states and subscriber 7 none, and nothing is left in the queue. \<^verbatim>\<open>State\<close> is the state
  of the second callback, as the claim says.
\<close>

theorem sole_receiver_counterexample:
  "StateChangedNotify 0 vm_world = Inr (StateNotifyOut 0) \<and>
   fired 1 [Fire 4 1, Receive 8 (StateNotifyOut 0), Receive 7 (StateNotifyOut 0),
            Fire 1 1, Receive 8 (StateNotifyOut 0), Receive 7 (StateNotifyOut 0)] = [4, 1] \<and>
   run state_step
     [Fire 4 1, Receive 8 (StateNotifyOut 0), Receive 7 (StateNotifyOut 0),
      Fire 1 1, Receive 8 (StateNotifyOut 0), Receive 7 (StateNotifyOut 0)] (vm_world, []) =
     Inr (running_world, [(8, 4), (8, 1)]) \<and>
   State 0 running_world = Inr 1 \<and>
   received_by 8 [(8, 4), (8, 1)] = [4, 1] \<and>
   received_by 7 [(8, 4), (8, 1)] = [] \<and>
   map_option (\<lambda>vm. queue (stateNotify (machineState vm))) (vms running_world 0) = Some []"
  by (simp add: StateChangedNotify_def State_def changeStateOnObserver_def Handle_Value_def
      chan_send_def chan_recv_def vm_world_def demo_vm_def running_world_def NewChannel_def
      received_by_def Let_def)

text \<open>
  Claim C3, amended. Take a machine whose state handle is \<open>h\<close> and whose
  \<^verbatim>\<open>stateNotify\<close> is as \<^verbatim>\<open>NewVirtualMachine\<close> made it, a subscriber \<open>k\<close> that holds the
  stream of \<^verbatim>\<open>StateChangedNotify\<close> and is the only receiver on it, and any interleaving of
  observer callbacks on \<open>h\<close> with receives of that subscriber. After it, \<^verbatim>\<open>State\<close> is the
  state of the last callback, and what the subscriber has received, followed by what is
  still queued for it, is the list of the states of all \<open>N\<close> callbacks in firing order,
  repeated states included; once the queue is empty it has received exactly those \<open>N\<close>.
\<close>

theorem state_observed_in_order:
  assumes "handles w h = Some (HMachineState a)" and "vms w a = Some vm"
    and "stateNotify (machineState vm) = NewChannel"
    and "\<forall>e\<in>set evs. (\<exists>raw. e = Fire raw h) \<or> e = Receive k (StateNotifyOut a)"
  shows "StateChangedNotify a w = Inr (StateNotifyOut a) \<and>
         (\<exists>w' rlog vm'. run state_step evs (w, []) = Inr (w', rlog) \<and>
            (fired h evs \<noteq> [] \<longrightarrow> State a w' = Inr (sint (last (fired h evs)))) \<and>
            vms w' a = Some vm' \<and>
            received_by k rlog @ queue (stateNotify (machineState vm')) =
              map sint (fired h evs) \<and>
            (queue (stateNotify (machineState vm')) = [] \<longrightarrow>
               received_by k rlog = map sint (fired h evs)))"
proof -
  have on: "\<forall>e\<in>set evs. on_machine h a e"
    using assms(4) by (auto simp: on_machine_def)
  have op: "\<not> inClosed (stateNotify (machineState vm))"
    using assms(3) by (simp add: NewChannel_def)
  from state_run_inv[OF assms(1,2) op on, of "[]", simplified] obtain w' rlog vm' where
    r: "run state_step evs (w, []) = Inr (w', rlog)" "vms w' a = Some vm'"
      "state (machineState vm') =
         (if fired h evs = [] then state (machineState vm) else sint (last (fired h evs)))"
      "map snd rlog @ queue (stateNotify (machineState vm')) =
         queue (stateNotify (machineState vm)) @ map sint (fired h evs)"
      "\<forall>x\<in>set rlog. \<exists>ch. Receive (fst x) ch \<in> set evs"
    by blast
  have "\<forall>x\<in>set rlog. fst x = k"
  proof
    fix x assume "x \<in> set rlog"
    with r(5) obtain ch where "Receive (fst x) ch \<in> set evs" by auto
    with assms(4) show "fst x = k" by auto
  qed
  then have all: "received_by k rlog = map snd rlog"
    by (simp add: received_by_def)
  have eq: "received_by k rlog @ queue (stateNotify (machineState vm')) =
      map sint (fired h evs)"
    using r(4) all assms(3) by (simp add: NewChannel_def)
  have st: "fired h evs \<noteq> [] \<longrightarrow> State a w' = Inr (sint (last (fired h evs)))"
    using r(2,3) by (simp add: State_def)
  have sub: "StateChangedNotify a w = Inr (StateNotifyOut a)"
    using assms(2) by (simp add: StateChangedNotify_def)
  from eq have "queue (stateNotify (machineState vm')) = [] \<longrightarrow>
               received_by k rlog = map sint (fired h evs)" by auto
  with sub r(1,2) st eq show ?thesis by blast
qed

text \<open>Three callbacks, two of them with the same state, and four receives.\<close>

theorem state_observed_in_order_witness:
  "run state_step demo_state_events (vm_world, []) =
     Inr (running_world, [(5, 4), (5, 1), (5, 1)]) \<and>
   State 0 running_world = Inr 1 \<and>
   received_by 5 [(5, 4), (5, 1), (5, 1)] = [4, 1, 1]"
proof -
  have h: "handles vm_world 1 = Some (HMachineState 0)" "vms vm_world 0 = Some demo_vm"
    "stateNotify (machineState demo_vm) = NewChannel"
    "\<forall>e\<in>set demo_state_events. (\<exists>raw. e = Fire raw 1) \<or> e = Receive 5 (StateNotifyOut 0)"
    by (simp_all add: vm_world_def demo_vm_def demo_state_events_def)
  have f: "fired 1 demo_state_events = [4, 1, 1]"
    by (simp add: demo_state_events_def)
  from state_observed_in_order[OF h] obtain w' rlog vm' where
    r: "run state_step demo_state_events (vm_world, []) = Inr (w', rlog)"
      "fired 1 demo_state_events \<noteq> [] \<longrightarrow>
         State 0 w' = Inr (sint (last (fired 1 demo_state_events)))"
      "vms w' 0 = Some vm'"
      "received_by 5 rlog @ queue (stateNotify (machineState vm')) =
              map sint (fired 1 demo_state_events)"
    by blast
  from r(1) demo_state_events_run have e: "w' = running_world" "rlog = [(5, 4), (5, 1), (5, 1)]"
    by simp_all
  from r(3) e have "queue (stateNotify (machineState vm')) = []"
    by (auto simp: running_world_def NewChannel_def)
  with r(2,4) e f demo_state_events_run show ?thesis by simp
qed

text \<open>
  Claim C4 says each \<^verbatim>\<open>StateChangedNotify\<close> call yields an independent stream and every
  subscriber receives every state published after it subscribed. The source returns the
  one output channel of \<^verbatim>\<open>stateNotify\<close> each time: with subscribers 1 and 2 attached and one
  state published, subscriber 1 receives it and subscriber 2's receive finds the queue
  empty.
\<close>

theorem two_subscribers_counterexample:
  "StateChangedNotify 0 vm_world = Inr (StateNotifyOut 0) \<and>
   run state_step
     [Fire 1 1, Receive 1 (StateNotifyOut 0), Receive 2 (StateNotifyOut 0)] (vm_world, []) =
     Inr (running_world, [(1, 1)]) \<and>
   received_by 1 [(1, 1)] = [1] \<and>
   received_by 2 [(1, 1)] = [] \<and>
   map_option (\<lambda>vm. queue (stateNotify (machineState vm))) (vms running_world 0) = Some []"
  by (simp add: StateChangedNotify_def changeStateOnObserver_def Handle_Value_def
      chan_send_def chan_recv_def vm_world_def demo_vm_def running_world_def NewChannel_def
      received_by_def Let_def)

text \<open>
  Claim C4, amended. \<^verbatim>\<open>StateChangedNotify\<close> can be called any number of times and always
  returns the same stream, the output side of the machine's one \<^verbatim>\<open>stateNotify\<close> channel.
  Each state is handed to exactly one receive: in any interleaving of observer callbacks
  and receives by any subscribers, the values received, in the order of the receives,
  followed by the queue, are the states queued at the start followed by the states
  published, in order.
\<close>

theorem state_stream_shared:
  assumes "handles w h = Some (HMachineState a)" and "vms w a = Some vm"
    and "\<not> inClosed (stateNotify (machineState vm))"
    and "\<forall>e\<in>set evs. (\<exists>raw. e = Fire raw h) \<or> (\<exists>k. e = Receive k (StateNotifyOut a))"
  shows "StateChangedNotify a w = Inr (StateNotifyOut a) \<and>
         (\<exists>w' rlog vm'. run state_step evs (w, []) = Inr (w', rlog) \<and>
            StateChangedNotify a w' = Inr (StateNotifyOut a) \<and>
            vms w' a = Some vm' \<and>
            map snd rlog @ queue (stateNotify (machineState vm')) =
              queue (stateNotify (machineState vm)) @ map sint (fired h evs))"
proof -
  have on: "\<forall>e\<in>set evs. on_machine h a e"
    using assms(4) by (auto simp: on_machine_def)
  from state_run_inv[OF assms(1,2,3) on, of "[]", simplified] obtain w' rlog vm' where
    r: "run state_step evs (w, []) = Inr (w', rlog)" "vms w' a = Some vm'"
      "map snd rlog @ queue (stateNotify (machineState vm')) =
         queue (stateNotify (machineState vm)) @ map sint (fired h evs)"
    by blast
  have "StateChangedNotify a w = Inr (StateNotifyOut a)"
    "StateChangedNotify a w' = Inr (StateNotifyOut a)"
    using assms(2) r(2) by (simp_all add: StateChangedNotify_def)
  with r show ?thesis by auto
qed

text \<open>Two subscribers and one published state.\<close>

theorem state_stream_shared_witness:
  "run state_step
     [Fire 1 1, Receive 1 (StateNotifyOut 0), Receive 2 (StateNotifyOut 0)] (vm_world, []) =
     Inr (running_world, [(1, 1)]) \<and>
   StateChangedNotify 0 running_world = Inr (StateNotifyOut 0)"
proof -
  let ?evs = "[Fire 1 1, Receive 1 (StateNotifyOut 0), Receive 2 (StateNotifyOut 0)]"
  have h: "handles vm_world 1 = Some (HMachineState 0)" "vms vm_world 0 = Some demo_vm"
    "\<not> inClosed (stateNotify (machineState demo_vm))"
    "\<forall>e\<in>set ?evs. (\<exists>raw. e = Fire raw 1) \<or> (\<exists>k. e = Receive k (StateNotifyOut 0))"
    by (simp_all add: vm_world_def demo_vm_def NewChannel_def)
  from state_stream_shared[OF h] obtain w' rlog where
    r: "run state_step ?evs (vm_world, []) = Inr (w', rlog)"
      "StateChangedNotify 0 w' = Inr (StateNotifyOut 0)"
    by blast
  have "run state_step ?evs (vm_world, []) = Inr (running_world, [(1, 1)])"
    by (simp add: changeStateOnObserver_def Handle_Value_def
      chan_send_def chan_recv_def vm_world_def demo_vm_def running_world_def NewChannel_def
      Let_def)
  with r show ?thesis by simp
qed

section \<open>Disconnect pipeline: the claims\<close>

lemma watching_world_reached:
  "run disc_step [Subscribe 0, Emit 1 (Some 5) 2, Emit 2 None 2, Emit (- 1) None 2, Emit 0 None 2]
     vm_world = Inr watching_world"
  by (simp add: NetworkDeviceAttachmentWasDisconnected_def macOSAvailable_def
      emitAttachmentWasDisconnected_def Handle_Value_def chan_send_def newNSError_def
      as_error_def vm_world_def demo_vm_def watching_world_def NewChannel_def)

lemma drained_world_reached:
  "run disc_step [WorkerStep 0, WorkerStep 0, WorkerStep 0, WorkerStep 0] watching_world =
     Inr drained_world"
  by (simp add: watchDisconnected_def chan_recv_def chan_send_def FindValueByIndex_def
      vm_world_def demo_vm_def demo_cfg_def watching_world_def drained_world_def NewChannel_def)

lemma watchDisconnected_Recv:
  assumes "i < length (watchers w)" "watchers w ! i = (v, Running)" "vms w v = Some vm"
    "\<not> inClosed (disconnectedOut vm)" "queue (disconnectedIn vm) = d # ds"
  shows "watchDisconnected i w =
     Inr (w\<lparr>vms := (vms w)(v \<mapsto>
            vm\<lparr>disconnectedIn := (disconnectedIn vm)\<lparr>queue := ds\<rparr>,
               disconnectedOut := (disconnectedOut vm)
                 \<lparr>queue := queue (disconnectedOut vm) @
                    [\<lparr>Err = err d,
                      Config = FindValueByIndex (networkDeviceConfiguration (config vm))
                                 (index d)\<rparr>]\<rparr>\<rparr>)\<rparr>)"
  using assms by (simp add: watchDisconnected_def chan_recv_def chan_send_def)


text \<open>
  Claim C5. A running worker of a machine whose public channel is open processes every
  queued event, one per iteration, and goes on running: each event becomes a
  \<^verbatim>\<open>DisconnectedError\<close> with the event's error, whose \<open>Config\<close> is the configuration of the
  device at the event's index when the index is within the configuration list, and nil
  when it is not (negative, or at least the length); the errors are published in the order
  of the events.
\<close>

theorem watchDisconnected_enriches:
  assumes "i < length (watchers w)" and "watchers w ! i = (v, Running)"
    and "vms w v = Some vm" and "\<not> inClosed (disconnectedOut vm)"
    and "queue (disconnectedIn vm) = ds"
  shows "\<exists>w' vm'. run disc_step (replicate (length ds) (WorkerStep i)) w = Inr w' \<and>
           vms w' v = Some vm' \<and> watchers w' = watchers w \<and>
           queue (disconnectedIn vm') = [] \<and>
           queue (disconnectedOut vm') =
             queue (disconnectedOut vm) @
             map (\<lambda>d. \<lparr>Err = err d,
                       Config =
                         (if 0 \<le> index d \<and>
                             index d < int (length (networkDeviceConfiguration (config vm)))
                          then Some (networkDeviceConfiguration (config vm) ! nat (index d))
                          else None)\<rparr>) ds"
  using assms
proof (induction ds arbitrary: w vm)
  case Nil
  then show ?case by simp
next
  case (Cons d ds)
  let ?vm1 = "vm\<lparr>disconnectedIn := (disconnectedIn vm)\<lparr>queue := ds\<rparr>,
               disconnectedOut := (disconnectedOut vm)
                 \<lparr>queue := queue (disconnectedOut vm) @
                    [\<lparr>Err = err d,
                      Config = FindValueByIndex (networkDeviceConfiguration (config vm))
                                 (index d)\<rparr>]\<rparr>\<rparr>"
  let ?w1 = "w\<lparr>vms := (vms w)(v \<mapsto> ?vm1)\<rparr>"
  have step: "watchDisconnected i w = Inr ?w1"
    by (rule watchDisconnected_Recv[OF Cons.prems])
  have p: "i < length (watchers ?w1)" "watchers ?w1 ! i = (v, Running)"
    "vms ?w1 v = Some ?vm1" "\<not> inClosed (disconnectedOut ?vm1)"
    "queue (disconnectedIn ?vm1) = ds"
    using Cons.prems by simp_all
  from Cons.IH[OF p] obtain w' vm' where
    r: "run disc_step (replicate (length ds) (WorkerStep i)) ?w1 = Inr w'"
      "vms w' v = Some vm'" "watchers w' = watchers ?w1"
      "queue (disconnectedIn vm') = []"
      "queue (disconnectedOut vm') =
             queue (disconnectedOut ?vm1) @
             map (\<lambda>d. \<lparr>Err = err d,
                       Config =
                         (if 0 \<le> index d \<and>
                             index d < int (length (networkDeviceConfiguration (config ?vm1)))
                          then Some (networkDeviceConfiguration (config ?vm1) ! nat (index d))
                          else None)\<rparr>) ds"
    by blast
  have "run disc_step (replicate (length (d # ds)) (WorkerStep i)) w = Inr w'"
    using step r(1) by simp
  moreover have "queue (disconnectedOut vm') =
             queue (disconnectedOut vm) @
             map (\<lambda>d. \<lparr>Err = err d,
                       Config =
                         (if 0 \<le> index d \<and>
                             index d < int (length (networkDeviceConfiguration (config vm)))
                          then Some (networkDeviceConfiguration (config vm) ! nat (index d))
                          else None)\<rparr>) (d # ds)"
    using r(5) by (simp add: FindValueByIndex_def)
  ultimately show ?case using r(2,3,4) by auto
qed

text \<open>
  Four events on the machine with two devices: index 1, index 2 (out of range), index -1
  (out of range) and index 0.
\<close>

theorem watchDisconnected_enriches_witness:
  "run disc_step (replicate 4 (WorkerStep 0)) watching_world = Inr drained_world \<and>
   map_option (\<lambda>vm. queue (disconnectedOut vm)) (vms drained_world 0) =
     Some [\<lparr>Err = Some (NSError 5), Config = Some 8\<rparr>,
           \<lparr>Err = Some NilNSError, Config = None\<rparr>,
           \<lparr>Err = Some NilNSError, Config = None\<rparr>,
           \<lparr>Err = Some NilNSError, Config = Some 7\<rparr>]"
proof -
  let ?ds = "[\<lparr>err = Some (NSError 5), index = 1\<rparr>, \<lparr>err = Some NilNSError, index = 2\<rparr>,
              \<lparr>err = Some NilNSError, index = - 1\<rparr>, \<lparr>err = Some NilNSError, index = 0\<rparr>]"
  let ?vm = "demo_vm\<lparr>watchDisconnectedOnce := True,
                 disconnectedIn := \<lparr>queue = ?ds, inClosed = False\<rparr>\<rparr>"
  have h: "0 < length (watchers watching_world)" "watchers watching_world ! 0 = (0, Running)"
    "vms watching_world 0 = Some ?vm" "\<not> inClosed (disconnectedOut ?vm)"
    "queue (disconnectedIn ?vm) = ?ds"
    by (simp_all add: watching_world_def demo_vm_def NewChannel_def)
  from watchDisconnected_enriches[OF h] obtain w' vm' where
    r: "run disc_step (replicate (length ?ds) (WorkerStep 0)) watching_world = Inr w'"
       "vms w' 0 = Some vm'"
       "queue (disconnectedOut vm') =
          queue (disconnectedOut ?vm) @
          map (\<lambda>d. \<lparr>Err = err d,
                       Config =
                         (if 0 \<le> index d \<and>
                             index d < int (length (networkDeviceConfiguration (config ?vm)))
                          then Some (networkDeviceConfiguration (config ?vm) ! nat (index d))
                          else None)\<rparr>) ?ds"
    by blast
  have e: "replicate 4 (WorkerStep 0) = [WorkerStep 0, WorkerStep 0, WorkerStep 0, WorkerStep 0]"
    by (simp add: numeral_eq_Suc)
  from r(1) drained_world_reached have w': "w' = drained_world" by simp
  from r(3) have "queue (disconnectedOut vm') =
      [\<lparr>Err = Some (NSError 5), Config = Some 8\<rparr>, \<lparr>Err = Some NilNSError, Config = None\<rparr>,
       \<lparr>Err = Some NilNSError, Config = None\<rparr>, \<lparr>Err = Some NilNSError, Config = Some 7\<rparr>]"
    by (simp add: demo_vm_def demo_cfg_def NewChannel_def)
  with r(2) w' drained_world_reached e show ?thesis by simp
qed

subsection \<open>The worker and the two channels\<close>


























section \<open>Completion bridge: the claim\<close>

lemma completions_append:
  "completions h (xs @ ys) = completions h xs @ completions h ys"
  by (induction h xs rule: completions.induct) simp_all

lemma with_handler_Inr:
  assumes "with_handler v fcall w = Inr (r, w')"
  shows "\<exists>q. r = Waiting q \<and> handleIdx w + 1 \<noteq> 0 \<and> p_handle q = handleIdx w + 1 \<and>
           p_errCh q = heapNext w \<and>
           handles w' = (handles w)(handleIdx w + 1 \<mapsto> HHandler (heapNext w)) \<and>
           handleIdx w' = handleIdx w + 1 \<and> heapNext w' = Suc (heapNext w) \<and>
           errChans w' = (errChans w)(heapNext w \<mapsto> \<lparr>buf = [], chClosed = False\<rparr>)"
  using assms
  by (auto simp: with_handler_def makeHandler_def NewHandle_def Let_def
      split: option.splits if_splits)

lemma control_Inr:
  assumes "control op v w = Inr (r, w')"
  shows "(\<exists>e. r = Returned e \<and> w' = w) \<or>
         (\<exists>q. r = Waiting q \<and> handleIdx w + 1 \<noteq> 0 \<and> p_handle q = handleIdx w + 1 \<and>
           p_errCh q = heapNext w \<and>
           handles w' = (handles w)(handleIdx w + 1 \<mapsto> HHandler (heapNext w)) \<and>
           handleIdx w' = handleIdx w + 1 \<and> heapNext w' = Suc (heapNext w) \<and>
           errChans w' = (errChans w)(heapNext w \<mapsto> \<lparr>buf = [], chClosed = False\<rparr>))"
proof (cases op)
  case (OpStart opts)
  with assms show ?thesis
    by (auto simp: Start_def split: sum.splits option.splits dest!: with_handler_Inr)
next
  case OpPause
  with assms show ?thesis by (auto simp: Pause_def dest!: with_handler_Inr)
next
  case OpResume
  with assms show ?thesis by (auto simp: Resume_def dest!: with_handler_Inr)
next
  case OpStop
  with assms show ?thesis
    by (auto simp: Stop_def split: option.splits dest!: with_handler_Inr)
qed

lemma completion_Inr:
  assumes "virtualMachineCompletionHandler h errPtr w = Inr r"
  shows "\<exists>c ch. handles w h = Some (HHandler c) \<and> errChans w c = Some ch \<and> \<not> chClosed ch \<and>
           ((buf ch = [] \<and>
             r = Some (w\<lparr>errChans := (errChans w)(c \<mapsto>
                             \<lparr>buf = [newNSError errPtr], chClosed = True\<rparr>)\<rparr>)) \<or>
            (buf ch \<noteq> [] \<and> r = None))"
  using assms
  by (auto simp: virtualMachineCompletionHandler_def Handle_Value_def handler_def
      newNSError_def split: option.splits hvalue.splits if_splits)

lemma await_fresh:
  "errChans w (p_errCh p) = Some \<lparr>buf = [], chClosed = False\<rparr> \<Longrightarrow> await p w = Inr None"
  by (simp add: await_def)

lemma await_delivered:
  assumes "errChans w (p_errCh p) = Some \<lparr>buf = [x], chClosed = True\<rparr>"
    "handles w (p_handle p) = Some hv"
  shows "await p w =
     Inr (Some (x, w\<lparr>errChans := (errChans w)(p_errCh p \<mapsto> \<lparr>buf = [], chClosed = True\<rparr>),
                     handles := (handles w)(p_handle p := None)\<rparr>))"
  using assms by (simp add: await_def Handle_Delete_def)


lemma call_inv_frame:
  assumes "call_inv evs w c"
    and "\<forall>q. call_pending c = Some q \<longrightarrow>
           completions (p_handle q) evs' = completions (p_handle q) evs \<and>
           handles w' (p_handle q) = handles w (p_handle q) \<and>
           errChans w' (p_errCh q) = errChans w (p_errCh q) \<and>
           (\<forall>h. handles w' h = Some (HHandler (p_errCh q)) \<longrightarrow>
                handles w h = Some (HHandler (p_errCh q)))"
  shows "call_inv evs' w' c"
proof (cases c)
  case (CWaiting q)
  with assms(2) have f: "completions (p_handle q) evs' = completions (p_handle q) evs"
    "handles w' (p_handle q) = handles w (p_handle q)"
    "errChans w' (p_errCh q) = errChans w (p_errCh q)"
    "\<forall>h. handles w' h = Some (HHandler (p_errCh q)) \<longrightarrow>
                handles w h = Some (HHandler (p_errCh q))"
    by (simp_all add: call_pending_def)
  from assms(1) CWaiting have i: "handles w (p_handle q) = Some (HHandler (p_errCh q))"
    "\<forall>h. handles w h = Some (HHandler (p_errCh q)) \<longrightarrow> h = p_handle q"
    "chan_state_ok (completions (p_handle q) evs) (errChans w (p_errCh q))"
    by (simp_all add: call_inv_def)
  from f(4) i(2) have o: "\<forall>h. handles w' h = Some (HHandler (p_errCh q)) \<longrightarrow> h = p_handle q"
    by blast
  have h: "handles w' (p_handle q) = Some (HHandler (p_errCh q))"
    using f(2) i(1) by simp
  have k: "chan_state_ok (completions (p_handle q) evs') (errChans w' (p_errCh q))"
    using f(1,3) i(3) by simp
  show ?thesis
    unfolding call_inv_def CWaiting call_state.case
    by (intro conjI) (rule h o k)+
next
  case (CReturned po r)
  show ?thesis
  proof (cases po)
    case None
    with CReturned show ?thesis by (simp add: call_inv_def)
  next
    case (Some q)
    with CReturned assms(2) have f: "completions (p_handle q) evs' = completions (p_handle q) evs"
      "handles w' (p_handle q) = handles w (p_handle q)"
      by (simp_all add: call_pending_def)
    with assms(1) CReturned Some show ?thesis by (simp add: call_inv_def)
  qed
qed

lemma le_less_ne: "(y::'a::linorder) \<le> x \<Longrightarrow> x < z \<Longrightarrow> y \<noteq> z"
  by auto

lemma le_less_le: "(y::'a::linorder) \<le> x \<Longrightarrow> x < z \<Longrightarrow> y \<le> z"
  by auto

lemma le_less_False: "(z::'a::linorder) \<le> x \<Longrightarrow> x < z \<Longrightarrow> False"
  by auto

lemma handles_wf_fields:
  "handles w' = handles w \<Longrightarrow> handleIdx w' = handleIdx w \<Longrightarrow> handles_wf w' = handles_wf w"
  by (simp add: handles_wf_def)

lemma bridge_inv_Invoke_returned:
  assumes "bridge_inv evs w cs"
  shows "bridge_inv (evs @ [Invoke v op]) w (cs @ [CReturned None e])"
proof -
  have c: "completions h (evs @ [Invoke v op]) = completions h evs" for h
    by (simp add: completions_append)
  have new: "call_inv (evs @ [Invoke v op]) w (CReturned None e)"
    "pending_bounds w (CReturned None e)"
    by (simp_all add: call_inv_def pending_bounds_def call_pending_def)
  have old: "call_inv (evs @ [Invoke v op]) w (cs ! j) \<and> pending_bounds w (cs ! j)"
    if "j < length cs" for j
  proof -
    from assms that have "call_inv evs w (cs ! j)" "pending_bounds w (cs ! j)"
      by (simp_all add: bridge_inv_def)
    moreover from this(1) have "call_inv (evs @ [Invoke v op]) w (cs ! j)"
      by (rule call_inv_frame) (simp add: c)
    ultimately show ?thesis by simp
  qed
  have all: "\<forall>j. j < length (cs @ [CReturned None e]) \<longrightarrow>
      call_inv (evs @ [Invoke v op]) w ((cs @ [CReturned None e]) ! j) \<and>
      pending_bounds w ((cs @ [CReturned None e]) ! j)"
  proof (intro allI impI)
    fix j assume "j < length (cs @ [CReturned None e])"
    then consider "j < length cs" | "j = length cs" by fastforce
    then show "call_inv (evs @ [Invoke v op]) w ((cs @ [CReturned None e]) ! j) \<and>
      pending_bounds w ((cs @ [CReturned None e]) ! j)"
    proof cases
      case 1
      with old[OF 1] show ?thesis by (simp add: nth_append)
    next
      case 2
      with new show ?thesis by simp
    qed
  qed
  have dist: "pending_distinct (cs @ [CReturned None e])"
    unfolding pending_distinct_def
  proof (intro allI impI)
    fix j k q q'
    assume h: "j < length (cs @ [CReturned None e]) \<and> k < length (cs @ [CReturned None e]) \<and>
      j \<noteq> k \<and> call_pending ((cs @ [CReturned None e]) ! j) = Some q \<and>
      call_pending ((cs @ [CReturned None e]) ! k) = Some q'"
    have "j < length cs"
    proof (rule ccontr)
      assume "\<not> j < length cs"
      with h have "j = length cs" by simp
      with h show False by (simp add: call_pending_def)
    qed
    moreover have "k < length cs"
    proof (rule ccontr)
      assume "\<not> k < length cs"
      with h have "k = length cs" by simp
      with h show False by (simp add: call_pending_def)
    qed
    moreover from calculation h have "call_pending (cs ! j) = Some q"
      "call_pending (cs ! k) = Some q'" "j \<noteq> k" by (simp_all add: nth_append)
    moreover from assms have "pending_distinct cs" by (simp add: bridge_inv_def)
    ultimately show "p_handle q \<noteq> p_handle q' \<and> p_errCh q \<noteq> p_errCh q'"
      unfolding pending_distinct_def by blast
  qed
  from assms have "bridge_wf w" "\<forall>h. completions h evs \<noteq> [] \<longrightarrow> h \<le> handleIdx w"
    by (simp_all add: bridge_inv_def)
  with all dist show ?thesis by (simp add: bridge_inv_def c)
qed

lemma bridge_inv_Invoke_waiting:
  assumes inv: "bridge_inv evs w cs"
    and nz: "handleIdx w + 1 \<noteq> 0"
    and q: "p_handle q = handleIdx w + 1" "p_errCh q = heapNext w"
    and w': "handles w' = (handles w)(handleIdx w + 1 \<mapsto> HHandler (heapNext w))"
      "handleIdx w' = handleIdx w + 1" "heapNext w' = Suc (heapNext w)"
      "errChans w' = (errChans w)(heapNext w \<mapsto> \<lparr>buf = [], chClosed = False\<rparr>)"
  shows "bridge_inv (evs @ [Invoke v op]) w' (cs @ [CWaiting q])"
proof -
  let ?evs = "evs @ [Invoke v op]"
  let ?h = "handleIdx w + 1"
  have c: "completions h ?evs = completions h evs" for h
    by (simp add: completions_append)
  from inv have wf: "handles_wf w" "\<forall>h c. handles w h = Some (HHandler c) \<longrightarrow> c < heapNext w"
    and i7: "\<forall>h. completions h evs \<noteq> [] \<longrightarrow> h \<le> handleIdx w"
    and pd: "pending_distinct cs"
    by (simp_all add: bridge_inv_def bridge_wf_def)
  have fresh: "handles w ?h = None" by (rule handles_wf_fresh[OF wf(1) nz])
  have gt: "handleIdx w < ?h" by (rule word_succ_greater[OF nz])
  have wf': "bridge_wf w'"
  proof -
    have "handles_wf (w\<lparr>handleIdx := ?h, handles := (handles w)(?h \<mapsto> HHandler (heapNext w))\<rparr>)"
      by (rule handles_wf_NewHandle[OF wf(1) nz])
    then have "handles_wf w'"
      using handles_wf_fields[of w' "w\<lparr>handleIdx := ?h,
          handles := (handles w)(?h \<mapsto> HHandler (heapNext w))\<rparr>"] w'(1,2)
      by simp
    moreover have "\<forall>h c. handles w' h = Some (HHandler c) \<longrightarrow> c < heapNext w'"
    proof (intro allI impI)
      fix h c assume a: "handles w' h = Some (HHandler c)"
      show "c < heapNext w'"
      proof (cases "h = ?h")
        case True
        with a w' show ?thesis by simp
      next
        case False
        with a w'(1) have "handles w h = Some (HHandler c)" by simp
        with wf(2) have "c < heapNext w" by blast
        with w'(3) show ?thesis by simp
      qed
    qed
    ultimately show ?thesis by (simp add: bridge_wf_def)
  qed
  have old: "call_inv ?evs w' (cs ! j) \<and> pending_bounds w' (cs ! j)"
    if j: "j < length cs" for j
  proof -
    from inv j have ci: "call_inv evs w (cs ! j)" and pb: "pending_bounds w (cs ! j)"
      by (simp_all add: bridge_inv_def)
    have fr: "\<forall>p. call_pending (cs ! j) = Some p \<longrightarrow>
           completions (p_handle p) ?evs = completions (p_handle p) evs \<and>
           handles w' (p_handle p) = handles w (p_handle p) \<and>
           errChans w' (p_errCh p) = errChans w (p_errCh p) \<and>
           (\<forall>h. handles w' h = Some (HHandler (p_errCh p)) \<longrightarrow>
                handles w h = Some (HHandler (p_errCh p)))"
    proof (intro allI impI)
      fix p assume p: "call_pending (cs ! j) = Some p"
      with pb have b: "p_handle p \<le> handleIdx w" "p_errCh p < heapNext w"
        by (simp_all add: pending_bounds_def)
      have ne: "p_handle p \<noteq> ?h" by (rule le_less_ne[OF b(1) gt])
      from b(2) have ne': "p_errCh p \<noteq> heapNext w" by simp
      have o: "\<forall>h. handles w' h = Some (HHandler (p_errCh p)) \<longrightarrow>
                handles w h = Some (HHandler (p_errCh p))"
      proof (intro allI impI)
        fix h assume a: "handles w' h = Some (HHandler (p_errCh p))"
        show "handles w h = Some (HHandler (p_errCh p))"
        proof (cases "h = ?h")
          case True
          with a w'(1) ne' show ?thesis by simp
        next
          case False
          with a w'(1) show ?thesis by simp
        qed
      qed
      have h1: "handles w' (p_handle p) = handles w (p_handle p)"
        using ne w'(1) by simp
      have h2: "errChans w' (p_errCh p) = errChans w (p_errCh p)"
        using ne' w'(4) by simp
      show "completions (p_handle p) ?evs = completions (p_handle p) evs \<and>
           handles w' (p_handle p) = handles w (p_handle p) \<and>
           errChans w' (p_errCh p) = errChans w (p_errCh p) \<and>
           (\<forall>h. handles w' h = Some (HHandler (p_errCh p)) \<longrightarrow>
                handles w h = Some (HHandler (p_errCh p)))"
        by (intro conjI) (rule c h1 h2 o)+
    qed
    have "call_inv ?evs w' (cs ! j)" by (rule call_inv_frame[OF ci fr])
    moreover have "pending_bounds w' (cs ! j)"
      unfolding pending_bounds_def
    proof (intro allI impI)
      fix p assume p: "call_pending (cs ! j) = Some p"
      with pb have b: "p_handle p \<noteq> 0" "p_handle p \<le> handleIdx w" "p_errCh p < heapNext w"
        by (simp_all add: pending_bounds_def)
      have "p_handle p \<le> ?h" by (rule le_less_le[OF b(2) gt])
      with b w'(2,3) show "p_handle p \<noteq> 0 \<and> p_handle p \<le> handleIdx w' \<and>
          p_errCh p < heapNext w'" by simp
    qed
    ultimately show ?thesis by simp
  qed
  have none: "completions ?h evs = []"
  proof (rule ccontr)
    assume "completions ?h evs \<noteq> []"
    with i7 have "?h \<le> handleIdx w" by blast
    then show False using gt by (rule le_less_False)
  qed
  have own: "\<forall>h. handles w' h = Some (HHandler (p_errCh q)) \<longrightarrow> h = p_handle q"
  proof (intro allI impI)
    fix h assume a: "handles w' h = Some (HHandler (p_errCh q))"
    show "h = p_handle q"
    proof (rule ccontr)
      assume "h \<noteq> p_handle q"
      with a q w'(1) have "handles w h = Some (HHandler (heapNext w))" by simp
      with wf(2) have "heapNext w < heapNext w" by blast
      then show False by simp
    qed
  qed
  have new: "call_inv ?evs w' (CWaiting q)" "pending_bounds w' (CWaiting q)"
  proof -
    have h1: "handles w' (p_handle q) = Some (HHandler (p_errCh q))" using q w'(1) by simp
    have h2: "chan_state_ok (completions (p_handle q) ?evs) (errChans w' (p_errCh q))"
      using none q w'(4) by (simp add: chan_state_ok_def c)
    show "call_inv ?evs w' (CWaiting q)"
      unfolding call_inv_def call_state.case
      by (intro conjI) (rule h1 own h2)+
    show "pending_bounds w' (CWaiting q)"
      using q nz w'(2,3) by (simp add: pending_bounds_def call_pending_def)
  qed
  have all: "\<forall>j. j < length (cs @ [CWaiting q]) \<longrightarrow>
      call_inv ?evs w' ((cs @ [CWaiting q]) ! j) \<and>
      pending_bounds w' ((cs @ [CWaiting q]) ! j)"
  proof (intro allI impI)
    fix j assume "j < length (cs @ [CWaiting q])"
    then consider "j < length cs" | "j = length cs" by fastforce
    then show "call_inv ?evs w' ((cs @ [CWaiting q]) ! j) \<and>
      pending_bounds w' ((cs @ [CWaiting q]) ! j)"
    proof cases
      case 1
      with old[OF 1] show ?thesis by (simp add: nth_append)
    next
      case 2
      with new show ?thesis by simp
    qed
  qed
  have vs_new: "p_handle p \<noteq> p_handle q \<and> p_errCh p \<noteq> p_errCh q"
    if "j < length cs" "call_pending (cs ! j) = Some p" for j p
  proof -
    from inv that(1) have "pending_bounds w (cs ! j)" by (simp add: bridge_inv_def)
    with that(2) have b: "p_handle p \<le> handleIdx w" "p_errCh p < heapNext w"
      by (simp_all add: pending_bounds_def)
    have "p_handle p \<noteq> p_handle q"
      unfolding q(1) by (rule le_less_ne[OF b(1) gt])
    moreover from b(2) q(2) have "p_errCh p \<noteq> p_errCh q" by simp
    ultimately show ?thesis by simp
  qed
  have dist: "pending_distinct (cs @ [CWaiting q])"
    unfolding pending_distinct_def
  proof (intro allI impI)
    fix j k p p'
    assume h: "j < length (cs @ [CWaiting q]) \<and> k < length (cs @ [CWaiting q]) \<and>
      j \<noteq> k \<and> call_pending ((cs @ [CWaiting q]) ! j) = Some p \<and>
      call_pending ((cs @ [CWaiting q]) ! k) = Some p'"
    then consider (oo) "j < length cs" "k < length cs"
      | (on) "j < length cs" "k = length cs"
      | (no) "j = length cs" "k < length cs"
      by fastforce
    then show "p_handle p \<noteq> p_handle p' \<and> p_errCh p \<noteq> p_errCh p'"
    proof cases
      case oo
      with h have "call_pending (cs ! j) = Some p" "call_pending (cs ! k) = Some p'" "j \<noteq> k"
        by (simp_all add: nth_append)
      with oo pd show ?thesis unfolding pending_distinct_def by blast
    next
      case on
      with h have a: "call_pending (cs ! j) = Some p" and b: "p' = q"
        by (simp_all add: nth_append call_pending_def)
      from vs_new[OF on(1) a] show ?thesis unfolding b .
    next
      case no
      with h have a: "call_pending (cs ! k) = Some p'" and b: "p = q"
        by (simp_all add: nth_append call_pending_def)
      from vs_new[OF no(2) a] have "p_handle p' \<noteq> p_handle p" "p_errCh p' \<noteq> p_errCh p"
        unfolding b by simp_all
      then show ?thesis by (simp add: neq_commute)
    qed
  qed
  have i7': "\<forall>h. completions h ?evs \<noteq> [] \<longrightarrow> h \<le> handleIdx w'"
  proof (intro allI impI)
    fix h assume "completions h ?evs \<noteq> []"
    with i7 have "h \<le> handleIdx w" by (simp add: c)
    then have "h \<le> ?h" using gt by (rule le_less_le)
    then show "h \<le> handleIdx w'" unfolding w'(2) .
  qed
  from wf' all dist i7' show ?thesis by (simp add: bridge_inv_def)
qed


lemma call_inv_frame_returned:
  assumes "call_inv evs w (CReturned po r)"
    and "\<forall>q. po = Some q \<longrightarrow>
           completions (p_handle q) evs' = completions (p_handle q) evs \<and>
           handles w' (p_handle q) = handles w (p_handle q)"
  shows "call_inv evs' w' (CReturned po r)"
proof (cases po)
  case None
  then show ?thesis by (simp add: call_inv_def)
next
  case (Some q)
  with assms(2) have f: "completions (p_handle q) evs' = completions (p_handle q) evs"
    "handles w' (p_handle q) = handles w (p_handle q)"
    by simp_all
  with assms(1) Some show ?thesis by (simp add: call_inv_def)
qed

lemma bridge_inv_trace:
  assumes "bridge_inv evs w cs" "\<And>h. completions h evs' = completions h evs"
  shows "bridge_inv evs' w cs"
proof -
  have "call_inv evs' w (cs ! j)" if "j < length cs" for j
  proof -
    from assms(1) that have "call_inv evs w (cs ! j)" by (simp add: bridge_inv_def)
    then show ?thesis by (rule call_inv_frame) (simp add: assms(2))
  qed
  with assms show ?thesis by (simp add: bridge_inv_def)
qed

lemma bridge_inv_Complete:
  assumes inv: "bridge_inv evs w cs"
    and hc: "handles w h = Some (HHandler c)" "errChans w c = Some ch" "\<not> chClosed ch"
    and w': "handles w' = handles w" "handleIdx w' = handleIdx w" "heapNext w' = heapNext w"
    and e: "(buf ch \<noteq> [] \<and> errChans w' = errChans w) \<or>
            (buf ch = [] \<and> errChans w' = (errChans w)(c \<mapsto>
                \<lparr>buf = [newNSError errPtr], chClosed = True\<rparr>))"
  shows "bridge_inv (evs @ [Complete h errPtr]) w' cs"
proof -
  let ?evs = "evs @ [Complete h errPtr]"
  have c_other: "completions h' ?evs = completions h' evs" if "h' \<noteq> h" for h'
    using that by (simp add: completions_append)
  have c_same: "completions h ?evs = completions h evs @ [errPtr]"
    by (simp add: completions_append)
  from inv have wf: "handles_wf w" "\<forall>h c. handles w h = Some (HHandler c) \<longrightarrow> c < heapNext w"
    and i7: "\<forall>h. completions h evs \<noteq> [] \<longrightarrow> h \<le> handleIdx w"
    and pd: "pending_distinct cs"
    by (simp_all add: bridge_inv_def bridge_wf_def)
  have wf': "bridge_wf w'"
    using wf w' handles_wf_fields[of w' w] by (simp add: bridge_wf_def)
  have each: "call_inv ?evs w' (cs ! j) \<and> pending_bounds w' (cs ! j)"
    if j: "j < length cs" for j
  proof -
    from inv j have ci: "call_inv evs w (cs ! j)" and pb: "pending_bounds w (cs ! j)"
      by (simp_all add: bridge_inv_def)
    have pb': "pending_bounds w' (cs ! j)"
      using pb w'(2,3) by (simp add: pending_bounds_def)
    have "call_inv ?evs w' (cs ! j)"
    proof (cases "cs ! j")
      case (CReturned po r)
      have "\<forall>q. po = Some q \<longrightarrow>
           completions (p_handle q) ?evs = completions (p_handle q) evs \<and>
           handles w' (p_handle q) = handles w (p_handle q)"
      proof (intro allI impI)
        fix q assume po: "po = Some q"
        with ci CReturned have "handles w (p_handle q) = None" by (simp add: call_inv_def)
        with hc(1) have "p_handle q \<noteq> h" by auto
        then show "completions (p_handle q) ?evs = completions (p_handle q) evs \<and>
           handles w' (p_handle q) = handles w (p_handle q)"
          using w'(1) by (simp add: c_other)
      qed
      with ci show ?thesis unfolding CReturned by (rule call_inv_frame_returned)
    next
      case (CWaiting q)
      from ci CWaiting have i: "handles w (p_handle q) = Some (HHandler (p_errCh q))"
        and own: "\<forall>h. handles w h = Some (HHandler (p_errCh q)) \<longrightarrow> h = p_handle q"
        and ok: "chan_state_ok (completions (p_handle q) evs) (errChans w (p_errCh q))"
        by (simp_all add: call_inv_def)
      have h1: "handles w' (p_handle q) = Some (HHandler (p_errCh q))"
        using i w'(1) by simp
      have own': "\<forall>h. handles w' h = Some (HHandler (p_errCh q)) \<longrightarrow> h = p_handle q"
        using own unfolding w'(1) .
      have ok': "chan_state_ok (completions (p_handle q) ?evs) (errChans w' (p_errCh q))"
      proof (cases "p_handle q = h")
        case True
        with i hc(1) have cq: "p_errCh q = c" by simp
        from ok hc(2,3) cq have fresh: "completions (p_handle q) evs = []" "buf ch = []"
          by (auto simp: chan_state_ok_def)
        with e have "errChans w' = (errChans w)(c \<mapsto>
                \<lparr>buf = [newNSError errPtr], chClosed = True\<rparr>)" by simp
        then have "errChans w' (p_errCh q) = Some \<lparr>buf = [newNSError errPtr], chClosed = True\<rparr>"
          using cq by simp
        moreover have "completions (p_handle q) ?evs = [errPtr]"
          using True c_same fresh(1) by simp
        ultimately show ?thesis by (simp add: chan_state_ok_def)
      next
        case False
        have "p_errCh q \<noteq> c"
        proof
          assume "p_errCh q = c"
          with hc(1) have "handles w h = Some (HHandler (p_errCh q))" by simp
          with own have "h = p_handle q" by blast
          with False show False by simp
        qed
        with e have "errChans w' (p_errCh q) = errChans w (p_errCh q)" by auto
        with ok False show ?thesis by (simp add: c_other)
      qed
      show ?thesis
        unfolding call_inv_def CWaiting call_state.case
        by (intro conjI) (rule h1 own' ok')+
    qed
    with pb' show ?thesis by simp
  qed
  have i7': "\<forall>h'. completions h' ?evs \<noteq> [] \<longrightarrow> h' \<le> handleIdx w'"
  proof (intro allI impI)
    fix h' assume a: "completions h' ?evs \<noteq> []"
    show "h' \<le> handleIdx w'"
    proof (cases "h' = h")
      case True
      from hc(1) wf(1) have "h \<le> handleIdx w" by (simp add: handles_wf_def)
      with True w'(2) show ?thesis by simp
    next
      case False
      with a have "completions h' evs \<noteq> []" by (simp add: c_other)
      with i7 have "h' \<le> handleIdx w" by blast
      with w'(2) show ?thesis by simp
    qed
  qed
  from wf' each pd i7' show ?thesis by (simp add: bridge_inv_def)
qed

lemma bridge_inv_Return_delivered:
  assumes inv: "bridge_inv evs w cs"
    and i: "i < length cs" "cs ! i = CWaiting p"
    and fin: "completions (p_handle p) evs = [e]"
    and w': "handles w' = (handles w)(p_handle p := None)" "handleIdx w' = handleIdx w"
      "heapNext w' = heapNext w"
      "errChans w' = (errChans w)(p_errCh p \<mapsto> \<lparr>buf = [], chClosed = True\<rparr>)"
  shows "bridge_inv (evs @ [Return i]) w' (cs[i := CReturned (Some p) (newNSError e)])"
proof -
  let ?evs = "evs @ [Return i]"
  let ?cs = "cs[i := CReturned (Some p) (newNSError e)]"
  have c: "completions h ?evs = completions h evs" for h
    by (simp add: completions_append)
  from inv have wf: "handles_wf w" "\<forall>h c. handles w h = Some (HHandler c) \<longrightarrow> c < heapNext w"
    and i7: "\<forall>h. completions h evs \<noteq> [] \<longrightarrow> h \<le> handleIdx w"
    and pd: "pending_distinct cs"
    by (simp_all add: bridge_inv_def bridge_wf_def)
  have cp: "call_pending (?cs ! j) = call_pending (cs ! j)" if "j < length cs" for j
    using that i by (cases "j = i") (simp_all add: call_pending_def)
  have wf': "bridge_wf w'"
  proof -
    have "handles_wf w'"
      unfolding handles_wf_def
    proof (intro allI impI)
      fix h assume "handles w' h \<noteq> None"
      with w'(1) have "handles w h \<noteq> None" by (simp split: if_splits)
      with wf(1) have "h \<noteq> 0 \<and> h \<le> handleIdx w" by (simp add: handles_wf_def)
      then show "h \<noteq> 0 \<and> h \<le> handleIdx w'" unfolding w'(2) .
    qed
    moreover have "\<forall>h c. handles w' h = Some (HHandler c) \<longrightarrow> c < heapNext w'"
    proof (intro allI impI)
      fix h c assume "handles w' h = Some (HHandler c)"
      with w'(1) have "handles w h = Some (HHandler c)" by (simp split: if_splits)
      with wf(2) have "c < heapNext w" by blast
      then show "c < heapNext w'" unfolding w'(3) .
    qed
    ultimately show ?thesis by (simp add: bridge_wf_def)
  qed
  have pd': "pending_distinct ?cs"
    unfolding pending_distinct_def
  proof (intro allI impI)
    fix j k q q'
    assume h: "j < length ?cs \<and> k < length ?cs \<and> j \<noteq> k \<and>
        call_pending (?cs ! j) = Some q \<and> call_pending (?cs ! k) = Some q'"
    then have "j < length cs" "k < length cs" by simp_all
    with h cp have "j < length cs \<and> k < length cs \<and> j \<noteq> k \<and>
        call_pending (cs ! j) = Some q \<and> call_pending (cs ! k) = Some q'" by simp
    with pd show "p_handle q \<noteq> p_handle q' \<and> p_errCh q \<noteq> p_errCh q'"
      unfolding pending_distinct_def by blast
  qed
  from inv i(1) have ci_i: "call_inv evs w (cs ! i)" by (simp add: bridge_inv_def)
  have each: "call_inv ?evs w' (?cs ! j) \<and> pending_bounds w' (?cs ! j)"
    if j: "j < length ?cs" for j
  proof -
    from j have jl: "j < length cs" by simp
    from inv jl have ci: "call_inv evs w (cs ! j)" and pb: "pending_bounds w (cs ! j)"
      by (simp_all add: bridge_inv_def)
    have pb': "pending_bounds w' (?cs ! j)"
      using pb w'(2,3) cp[OF jl] by (simp add: pending_bounds_def)
    have "call_inv ?evs w' (?cs ! j)"
    proof (cases "j = i")
      case True
      have "handles w' (p_handle p) = None" using w'(1) by simp
      moreover have "completions (p_handle p) ?evs = [e]" using fin by (simp add: c)
      ultimately have "call_inv ?evs w' (CReturned (Some p) (newNSError e))"
        by (simp add: call_inv_def)
      with True i(1) show ?thesis by simp
    next
      case False
      then have same: "?cs ! j = cs ! j" by simp
      have fr: "\<forall>q. call_pending (cs ! j) = Some q \<longrightarrow>
           completions (p_handle q) ?evs = completions (p_handle q) evs \<and>
           handles w' (p_handle q) = handles w (p_handle q) \<and>
           errChans w' (p_errCh q) = errChans w (p_errCh q) \<and>
           (\<forall>h. handles w' h = Some (HHandler (p_errCh q)) \<longrightarrow>
                handles w h = Some (HHandler (p_errCh q)))"
      proof (intro allI impI)
        fix q assume q: "call_pending (cs ! j) = Some q"
        have "call_pending (cs ! i) = Some p" using i(2) by (simp add: call_pending_def)
        with pd jl i(1) False q have ne: "p_handle q \<noteq> p_handle p" "p_errCh q \<noteq> p_errCh p"
          unfolding pending_distinct_def by blast+
        have h1: "handles w' (p_handle q) = handles w (p_handle q)"
          using ne(1) w'(1) by simp
        have h2: "errChans w' (p_errCh q) = errChans w (p_errCh q)"
          using ne(2) w'(4) by simp
        have o: "\<forall>h. handles w' h = Some (HHandler (p_errCh q)) \<longrightarrow>
                handles w h = Some (HHandler (p_errCh q))"
        proof (intro allI impI)
          fix h assume "handles w' h = Some (HHandler (p_errCh q))"
          with w'(1) show "handles w h = Some (HHandler (p_errCh q))"
            by (simp split: if_splits)
        qed
        show "completions (p_handle q) ?evs = completions (p_handle q) evs \<and>
           handles w' (p_handle q) = handles w (p_handle q) \<and>
           errChans w' (p_errCh q) = errChans w (p_errCh q) \<and>
           (\<forall>h. handles w' h = Some (HHandler (p_errCh q)) \<longrightarrow>
                handles w h = Some (HHandler (p_errCh q)))"
          by (intro conjI) (rule c h1 h2 o)+
      qed
      have "call_inv ?evs w' (cs ! j)" by (rule call_inv_frame[OF ci fr])
      with same show ?thesis by simp
    qed
    with pb' show ?thesis by simp
  qed
  have i7': "\<forall>h. completions h ?evs \<noteq> [] \<longrightarrow> h \<le> handleIdx w'"
    using i7 unfolding w'(2) by (simp add: c)
  from wf' each pd' i7' show ?thesis by (simp add: bridge_inv_def)
qed


lemma bridge_inv_step:
  assumes inv: "bridge_inv evs w cs" and st: "bridge_step ev (w, cs) = Inr (w', cs')"
  shows "bridge_inv (evs @ [ev]) w' cs'"
proof (cases ev)
  case (Invoke v op)
  with st obtain r w1 where c: "control op v w = Inr (r, w1)"
    by (auto split: sum.splits)
  from control_Inr[OF c] show ?thesis
  proof
    assume "\<exists>e. r = Returned e \<and> w1 = w"
    then obtain e where "r = Returned e" "w1 = w" by blast
    with st Invoke c have "w' = w" "cs' = cs @ [CReturned None e]" by simp_all
    with bridge_inv_Invoke_returned[OF inv] Invoke show ?thesis by simp
  next
    assume "\<exists>q. r = Waiting q \<and> handleIdx w + 1 \<noteq> 0 \<and> p_handle q = handleIdx w + 1 \<and>
           p_errCh q = heapNext w \<and>
           handles w1 = (handles w)(handleIdx w + 1 \<mapsto> HHandler (heapNext w)) \<and>
           handleIdx w1 = handleIdx w + 1 \<and> heapNext w1 = Suc (heapNext w) \<and>
           errChans w1 = (errChans w)(heapNext w \<mapsto> \<lparr>buf = [], chClosed = False\<rparr>)"
    then obtain q where q: "r = Waiting q" "handleIdx w + 1 \<noteq> 0"
      "p_handle q = handleIdx w + 1" "p_errCh q = heapNext w"
      "handles w1 = (handles w)(handleIdx w + 1 \<mapsto> HHandler (heapNext w))"
      "handleIdx w1 = handleIdx w + 1" "heapNext w1 = Suc (heapNext w)"
      "errChans w1 = (errChans w)(heapNext w \<mapsto> \<lparr>buf = [], chClosed = False\<rparr>)"
      by blast
    from st Invoke c q(1) have e: "w' = w1" "cs' = cs @ [CWaiting q]" by simp_all
    from bridge_inv_Invoke_waiting[OF inv q(2-8)]
    show ?thesis unfolding e Invoke .
  qed
next
  case (Complete h errPtr)
  with st obtain r where c: "virtualMachineCompletionHandler h errPtr w = Inr r"
    by (auto split: sum.splits)
  from completion_Inr[OF c] obtain c1 ch where
    hc: "handles w h = Some (HHandler c1)" "errChans w c1 = Some ch" "\<not> chClosed ch"
    and alt: "(buf ch = [] \<and>
             r = Some (w\<lparr>errChans := (errChans w)(c1 \<mapsto>
                             \<lparr>buf = [newNSError errPtr], chClosed = True\<rparr>)\<rparr>)) \<or>
            (buf ch \<noteq> [] \<and> r = None)"
    by blast
  from st Complete c have cs': "cs' = cs" by (auto split: option.splits)
  from st Complete c have w': "w' = (case r of None \<Rightarrow> w | Some w2 \<Rightarrow> w2)"
    by (auto split: option.splits)
  from alt w' have f: "handles w' = handles w" "handleIdx w' = handleIdx w"
    "heapNext w' = heapNext w" by auto
  from alt w' have e: "(buf ch \<noteq> [] \<and> errChans w' = errChans w) \<or>
            (buf ch = [] \<and> errChans w' = (errChans w)(c1 \<mapsto>
                \<lparr>buf = [newNSError errPtr], chClosed = True\<rparr>))" by auto
  from bridge_inv_Complete[OF inv hc f e] show ?thesis unfolding cs' Complete .
next
  case (Return i)
  have tr: "completions h (evs @ [Return i]) = completions h evs" for h
    by (simp add: completions_append)
  have same: "bridge_inv (evs @ [Return i]) w cs"
    by (rule bridge_inv_trace[OF inv tr])
  show ?thesis
  proof (cases "i < length cs")
    case False
    with st Return have "w' = w" "cs' = cs" by simp_all
    with same Return show ?thesis by simp
  next
    case True
    show ?thesis
    proof (cases "cs ! i")
      case (CReturned po r)
      with st Return True have "w' = w" "cs' = cs" by simp_all
      with same Return show ?thesis by simp
    next
      case (CWaiting p)
      from inv True have ci: "call_inv evs w (cs ! i)" by (simp add: bridge_inv_def)
      with CWaiting have hp: "handles w (p_handle p) = Some (HHandler (p_errCh p))"
        and ok: "chan_state_ok (completions (p_handle p) evs) (errChans w (p_errCh p))"
        by (simp_all add: call_inv_def)
      from ok consider
          (fresh) "completions (p_handle p) evs = []"
            "errChans w (p_errCh p) = Some \<lparr>buf = [], chClosed = False\<rparr>"
        | (delivered) e where "completions (p_handle p) evs = [e]"
            "errChans w (p_errCh p) = Some \<lparr>buf = [newNSError e], chClosed = True\<rparr>"
        unfolding chan_state_ok_def by blast
      then show ?thesis
      proof cases
        case fresh
        from await_fresh[OF fresh(2)] st Return True CWaiting
        have "w' = w" "cs' = cs" by simp_all
        with same Return show ?thesis by simp
      next
        case delivered
        let ?w2 = "w\<lparr>errChans := (errChans w)(p_errCh p \<mapsto> \<lparr>buf = [], chClosed = True\<rparr>),
                     handles := (handles w)(p_handle p := None)\<rparr>"
        from await_delivered[OF delivered(2) hp] st Return True CWaiting
        have e: "w' = ?w2" "cs' = cs[i := CReturned (Some p) (newNSError e)]" by simp_all
        have f: "handles ?w2 = (handles w)(p_handle p := None)" "handleIdx ?w2 = handleIdx w"
          "heapNext ?w2 = heapNext w"
          "errChans ?w2 = (errChans w)(p_errCh p \<mapsto> \<lparr>buf = [], chClosed = True\<rparr>)"
          by simp_all
        from bridge_inv_Return_delivered[OF inv True CWaiting delivered(1) f]
        show ?thesis unfolding e Return .
      qed
    qed
  qed
qed

lemma bridge_inv_run:
  "bridge_inv evs0 w cs \<Longrightarrow> run bridge_step evs (w, cs) = Inr (w', cs') \<Longrightarrow>
     bridge_inv (evs0 @ evs) w' cs'"
proof (induction evs arbitrary: evs0 w cs)
  case Nil
  then show ?case by simp
next
  case (Cons ev evs)
  from Cons.prems(2) obtain w1 cs1 where
    s: "bridge_step ev (w, cs) = Inr (w1, cs1)" "run bridge_step evs (w1, cs1) = Inr (w', cs')"
    by (auto split: sum.splits)
  from bridge_inv_step[OF Cons.prems(1) s(1)] have "bridge_inv (evs0 @ [ev]) w1 cs1" .
  from Cons.IH[OF this s(2)] show ?case by simp
qed

lemma bridge_inv_init: "bridge_wf w \<Longrightarrow> bridge_inv [] w []"
  by (simp add: bridge_inv_def pending_distinct_def)

lemma with_handler_exact:
  assumes "with_handler v fcall w = Inr (r, w')"
  shows "\<exists>q vm. r = Waiting q \<and> vms w v = Some vm \<and> handleIdx w + 1 \<noteq> 0 \<and>
           p_handle q = handleIdx w + 1 \<and> p_errCh q = heapNext w \<and>
           handles w' = (handles w)(handleIdx w + 1 \<mapsto> HHandler (heapNext w)) \<and>
           errChans w' = (errChans w)(heapNext w \<mapsto> \<lparr>buf = [], chClosed = False\<rparr>) \<and>
           foreignCalls w' =
             foreignCalls w @ [fcall (pointer vm) (dispatchQueue vm) (handleIdx w + 1)]"
  using assms
  by (auto simp: with_handler_def makeHandler_def NewHandle_def Let_def
      split: option.splits if_splits)

lemma with_handler_total:
  assumes "vms w v = Some vm" "handleIdx w + 1 \<noteq> 0"
  shows "\<exists>q w'. with_handler v fcall w = Inr (Waiting q, w')"
  using assms by (simp add: with_handler_def makeHandler_def NewHandle_def Let_def)

lemma control_total:
  assumes "vms w v = Some vm" "handleIdx w + 1 \<noteq> 0"
  shows "\<exists>r w'. control op v w = Inr (r, w')"
proof (cases op)
  case (OpStart opts)
  show ?thesis
  proof (cases "apply_start_opts opts None")
    case (Inl e)
    with OpStart show ?thesis by (simp add: Start_def)
  next
    case (Inr o1)
    show ?thesis
    proof (cases o1)
      case None
      with OpStart Inr with_handler_total[OF assms, of C_startWithCompletionHandler]
      show ?thesis by (auto simp: Start_def)
    next
      case (Some optsPtr)
      with OpStart Inr
        with_handler_total[OF assms, of "\<lambda>m q. C_startWithOptionsCompletionHandler m q optsPtr"]
      show ?thesis by (auto simp: Start_def)
    qed
  qed
next
  case OpPause
  with with_handler_total[OF assms, of C_pauseWithCompletionHandler]
  show ?thesis by (auto simp: Pause_def)
next
  case OpResume
  with with_handler_total[OF assms, of C_resumeWithCompletionHandler]
  show ?thesis by (auto simp: Resume_def)
next
  case OpStop
  show ?thesis
  proof (cases "macOSVersion w < 12")
    case True
    with OpStop show ?thesis by (simp add: Stop_def macOSAvailable_def)
  next
    case False
    with OpStop with_handler_total[OF assms, of C_stopWithCompletionHandler]
    show ?thesis by (auto simp: Stop_def macOSAvailable_def)
  qed
qed

lemma control_exact:
  assumes "control op v w = Inr (r, w')"
  shows "(\<exists>e. r = Returned (Some e) \<and> w' = w \<and>
            ((op = OpStop \<and> macOSVersion w < 12 \<and> e = ErrUnsupportedOSVersion) \<or>
             (\<exists>opts. op = OpStart opts \<and> apply_start_opts opts None = Inl e))) \<or>
         (\<exists>q vm. r = Waiting q \<and>
            (op = OpStop \<longrightarrow> 12 \<le> macOSVersion w) \<and>
            (\<forall>opts. op = OpStart opts \<longrightarrow> (\<exists>o1. apply_start_opts opts None = Inr o1)) \<and>
            vms w v = Some vm \<and> handleIdx w + 1 \<noteq> 0 \<and>
            p_handle q = handleIdx w + 1 \<and> p_errCh q = heapNext w \<and>
            handles w' = (handles w)(handleIdx w + 1 \<mapsto> HHandler (heapNext w)) \<and>
            errChans w' = (errChans w)(heapNext w \<mapsto> \<lparr>buf = [], chClosed = False\<rparr>) \<and>
            foreignCalls w' = foreignCalls w @
              [case op of
                 OpStart opts \<Rightarrow>
                   (case apply_start_opts opts None of
                      Inr (Some optsPtr) \<Rightarrow>
                        C_startWithOptionsCompletionHandler (pointer vm) (dispatchQueue vm)
                          optsPtr (p_handle q)
                    | _ \<Rightarrow>
                        C_startWithCompletionHandler (pointer vm) (dispatchQueue vm)
                          (p_handle q))
               | OpPause \<Rightarrow>
                   C_pauseWithCompletionHandler (pointer vm) (dispatchQueue vm) (p_handle q)
               | OpResume \<Rightarrow>
                   C_resumeWithCompletionHandler (pointer vm) (dispatchQueue vm) (p_handle q)
               | OpStop \<Rightarrow>
                   C_stopWithCompletionHandler (pointer vm) (dispatchQueue vm) (p_handle q)])"
proof (cases op)
  case (OpStart opts)
  show ?thesis
  proof (cases "apply_start_opts opts None")
    case (Inl e)
    with OpStart assms show ?thesis by (simp add: Start_def)
  next
    case (Inr o1)
    show ?thesis
    proof (cases o1)
      case None
      with OpStart Inr assms
      have "with_handler v C_startWithCompletionHandler w = Inr (r, w')"
        by (simp add: Start_def)
      from with_handler_exact[OF this] OpStart Inr None show ?thesis by auto
    next
      case (Some optsPtr)
      with OpStart Inr assms
      have "with_handler v (\<lambda>m q. C_startWithOptionsCompletionHandler m q optsPtr) w =
          Inr (r, w')"
        by (simp add: Start_def)
      from with_handler_exact[OF this] OpStart Inr Some show ?thesis by auto
    qed
  qed
next
  case OpPause
  with assms have "with_handler v C_pauseWithCompletionHandler w = Inr (r, w')"
    by (simp add: Pause_def)
  from with_handler_exact[OF this] OpPause show ?thesis by auto
next
  case OpResume
  with assms have "with_handler v C_resumeWithCompletionHandler w = Inr (r, w')"
    by (simp add: Resume_def)
  from with_handler_exact[OF this] OpResume show ?thesis by auto
next
  case OpStop
  show ?thesis
  proof (cases "macOSVersion w < 12")
    case True
    with OpStop assms show ?thesis by (simp add: Stop_def macOSAvailable_def)
  next
    case False
    with OpStop assms have "with_handler v C_stopWithCompletionHandler w = Inr (r, w')"
      by (simp add: Stop_def macOSAvailable_def)
    from with_handler_exact[OF this] OpStop False show ?thesis by auto
  qed
qed

text \<open>
  Claim C1. Start from any world with a well-formed handle table and let control
  operations be invoked, completion callbacks fire and waiting calls try to return, in any
  order, without a panic. In the state reached:
  \<^item> an invocation of \<^verbatim>\<open>Start\<close>, \<^verbatim>\<open>Pause\<close>, \<^verbatim>\<open>Resume\<close> or \<^verbatim>\<open>Stop\<close> registers a new
    handle for its completion callback, whose channel is empty and for which no completion
    has fired, issues its foreign call with that handle, and waits; the only invocations
    that return at once are \<^verbatim>\<open>Stop\<close> below macOS 12 and \<^verbatim>\<open>Start\<close> with a failing option,
    which return that error and register nothing;
  \<^item> an invocation on an existing machine does not panic while handles are left;
  \<^item> while a call waits and no completion has fired for its handle, its attempt to return
    leaves it waiting; when a completion has fired for its handle, it is the only one and
    the call returns with exactly the error (or nil) of that completion;
  \<^item> a call that has returned through the bridge returned the error (or nil) of the one
    completion fired for its handle;
  \<^item> no other call has the same handle, so no call receives another call's result.
\<close>

theorem completion_bridge:
  assumes "bridge_wf w0" and "run bridge_step evs (w0, []) = Inr (w, cs)"
  shows "(\<forall>v op w' cs'. bridge_step (Invoke v op) (w, cs) = Inr (w', cs') \<longrightarrow>
            (\<exists>e. cs' = cs @ [CReturned None (Some e)] \<and> w' = w \<and>
               ((op = OpStop \<and> macOSVersion w < 12 \<and> e = ErrUnsupportedOSVersion) \<or>
                (\<exists>opts. op = OpStart opts \<and> apply_start_opts opts None = Inl e))) \<or>
            (\<exists>q vm. cs' = cs @ [CWaiting q] \<and>
               (op = OpStop \<longrightarrow> 12 \<le> macOSVersion w) \<and>
               (\<forall>opts. op = OpStart opts \<longrightarrow> (\<exists>o1. apply_start_opts opts None = Inr o1)) \<and>
               vms w v = Some vm \<and>
               handles w (p_handle q) = None \<and>
               handles w' = (handles w)(p_handle q \<mapsto> HHandler (p_errCh q)) \<and>
               errChans w' (p_errCh q) = Some \<lparr>buf = [], chClosed = False\<rparr> \<and>
               completions (p_handle q) evs = [] \<and>
               foreignCalls w' = foreignCalls w @
                 [case op of
                    OpStart opts \<Rightarrow>
                      (case apply_start_opts opts None of
                         Inr (Some optsPtr) \<Rightarrow>
                           C_startWithOptionsCompletionHandler (pointer vm) (dispatchQueue vm)
                             optsPtr (p_handle q)
                       | _ \<Rightarrow>
                           C_startWithCompletionHandler (pointer vm) (dispatchQueue vm)
                             (p_handle q))
                  | OpPause \<Rightarrow>
                      C_pauseWithCompletionHandler (pointer vm) (dispatchQueue vm) (p_handle q)
                  | OpResume \<Rightarrow>
                      C_resumeWithCompletionHandler (pointer vm) (dispatchQueue vm) (p_handle q)
                  | OpStop \<Rightarrow>
                      C_stopWithCompletionHandler (pointer vm) (dispatchQueue vm)
                        (p_handle q)])) \<and>
         (\<forall>v op vm. vms w v = Some vm \<and> handleIdx w + 1 \<noteq> 0 \<longrightarrow>
            (\<exists>w' cs'. bridge_step (Invoke v op) (w, cs) = Inr (w', cs'))) \<and>
         (\<forall>i. i < length cs \<longrightarrow>
            (\<forall>p. cs ! i = CWaiting p \<longrightarrow>
               (completions (p_handle p) evs = [] \<and>
                bridge_step (Return i) (w, cs) = Inr (w, cs)) \<or>
               (\<exists>e w'. completions (p_handle p) evs = [e] \<and>
                  bridge_step (Return i) (w, cs) =
                    Inr (w', cs[i := CReturned (Some p) (newNSError e)]))) \<and>
            (\<forall>p r. cs ! i = CReturned (Some p) r \<longrightarrow>
               (\<exists>e. completions (p_handle p) evs = [e] \<and> r = newNSError e)) \<and>
            (\<forall>j p q. j < length cs \<and> j \<noteq> i \<and> call_pending (cs ! i) = Some p \<and>
               call_pending (cs ! j) = Some q \<longrightarrow> p_handle p \<noteq> p_handle q))"
proof -
  from bridge_inv_run[OF bridge_inv_init[OF assms(1)] assms(2)]
  have inv: "bridge_inv evs w cs" by simp
  from inv have pd: "pending_distinct cs" and wf: "handles_wf w"
    and i7: "\<forall>h. completions h evs \<noteq> [] \<longrightarrow> h \<le> handleIdx w"
    by (simp_all add: bridge_inv_def bridge_wf_def)
  have reg: "\<forall>v op w' cs'. bridge_step (Invoke v op) (w, cs) = Inr (w', cs') \<longrightarrow>
            (\<exists>e. cs' = cs @ [CReturned None (Some e)] \<and> w' = w \<and>
               ((op = OpStop \<and> macOSVersion w < 12 \<and> e = ErrUnsupportedOSVersion) \<or>
                (\<exists>opts. op = OpStart opts \<and> apply_start_opts opts None = Inl e))) \<or>
            (\<exists>q vm. cs' = cs @ [CWaiting q] \<and>
               (op = OpStop \<longrightarrow> 12 \<le> macOSVersion w) \<and>
               (\<forall>opts. op = OpStart opts \<longrightarrow> (\<exists>o1. apply_start_opts opts None = Inr o1)) \<and>
               vms w v = Some vm \<and>
               handles w (p_handle q) = None \<and>
               handles w' = (handles w)(p_handle q \<mapsto> HHandler (p_errCh q)) \<and>
               errChans w' (p_errCh q) = Some \<lparr>buf = [], chClosed = False\<rparr> \<and>
               completions (p_handle q) evs = [] \<and>
               foreignCalls w' = foreignCalls w @
                 [case op of
                    OpStart opts \<Rightarrow>
                      (case apply_start_opts opts None of
                         Inr (Some optsPtr) \<Rightarrow>
                           C_startWithOptionsCompletionHandler (pointer vm) (dispatchQueue vm)
                             optsPtr (p_handle q)
                       | _ \<Rightarrow>
                           C_startWithCompletionHandler (pointer vm) (dispatchQueue vm)
                             (p_handle q))
                  | OpPause \<Rightarrow>
                      C_pauseWithCompletionHandler (pointer vm) (dispatchQueue vm) (p_handle q)
                  | OpResume \<Rightarrow>
                      C_resumeWithCompletionHandler (pointer vm) (dispatchQueue vm) (p_handle q)
                  | OpStop \<Rightarrow>
                      C_stopWithCompletionHandler (pointer vm) (dispatchQueue vm)
                        (p_handle q)])"
    (is "\<forall>v op w' cs'. _ \<longrightarrow> ?E v op w' cs' \<or> ?W v op w' cs'")
  proof (intro allI impI)
    fix v op w' cs'
    assume st: "bridge_step (Invoke v op) (w, cs) = Inr (w', cs')"
    then obtain r w1 where c: "control op v w = Inr (r, w1)"
      by (auto split: sum.splits)
    from control_exact[OF c] show "?E v op w' cs' \<or> ?W v op w' cs'"
    proof
      assume "\<exists>e. r = Returned (Some e) \<and> w1 = w \<and>
            ((op = OpStop \<and> macOSVersion w < 12 \<and> e = ErrUnsupportedOSVersion) \<or>
             (\<exists>opts. op = OpStart opts \<and> apply_start_opts opts None = Inl e))"
      then obtain e where e: "r = Returned (Some e)" "w1 = w"
        "(op = OpStop \<and> macOSVersion w < 12 \<and> e = ErrUnsupportedOSVersion) \<or>
             (\<exists>opts. op = OpStart opts \<and> apply_start_opts opts None = Inl e)"
        by blast
      from st c e(1,2) have "cs' = cs @ [CReturned None (Some e)]" "w' = w" by simp_all
      with e(3) have "?E v op w' cs'" by blast
      then show ?thesis ..
    next
      assume "\<exists>q vm. r = Waiting q \<and>
            (op = OpStop \<longrightarrow> 12 \<le> macOSVersion w) \<and>
            (\<forall>opts. op = OpStart opts \<longrightarrow> (\<exists>o1. apply_start_opts opts None = Inr o1)) \<and>
            vms w v = Some vm \<and> handleIdx w + 1 \<noteq> 0 \<and>
            p_handle q = handleIdx w + 1 \<and> p_errCh q = heapNext w \<and>
            handles w1 = (handles w)(handleIdx w + 1 \<mapsto> HHandler (heapNext w)) \<and>
            errChans w1 = (errChans w)(heapNext w \<mapsto> \<lparr>buf = [], chClosed = False\<rparr>) \<and>
            foreignCalls w1 = foreignCalls w @
              [case op of
                 OpStart opts \<Rightarrow>
                   (case apply_start_opts opts None of
                      Inr (Some optsPtr) \<Rightarrow>
                        C_startWithOptionsCompletionHandler (pointer vm) (dispatchQueue vm)
                          optsPtr (p_handle q)
                    | _ \<Rightarrow>
                        C_startWithCompletionHandler (pointer vm) (dispatchQueue vm)
                          (p_handle q))
               | OpPause \<Rightarrow>
                   C_pauseWithCompletionHandler (pointer vm) (dispatchQueue vm) (p_handle q)
               | OpResume \<Rightarrow>
                   C_resumeWithCompletionHandler (pointer vm) (dispatchQueue vm) (p_handle q)
               | OpStop \<Rightarrow>
                   C_stopWithCompletionHandler (pointer vm) (dispatchQueue vm) (p_handle q)]"
      then obtain q vm where q: "r = Waiting q"
        and g1: "op = OpStop \<longrightarrow> 12 \<le> macOSVersion w"
        and g2: "\<forall>opts. op = OpStart opts \<longrightarrow> (\<exists>o1. apply_start_opts opts None = Inr o1)"
        and vm: "vms w v = Some vm" and nz: "handleIdx w + 1 \<noteq> 0"
        and ph: "p_handle q = handleIdx w + 1" and pc: "p_errCh q = heapNext w"
        and hs: "handles w1 = (handles w)(handleIdx w + 1 \<mapsto> HHandler (heapNext w))"
        and es: "errChans w1 = (errChans w)(heapNext w \<mapsto> \<lparr>buf = [], chClosed = False\<rparr>)"
        and fc: "foreignCalls w1 = foreignCalls w @
              [case op of
                 OpStart opts \<Rightarrow>
                   (case apply_start_opts opts None of
                      Inr (Some optsPtr) \<Rightarrow>
                        C_startWithOptionsCompletionHandler (pointer vm) (dispatchQueue vm)
                          optsPtr (p_handle q)
                    | _ \<Rightarrow>
                        C_startWithCompletionHandler (pointer vm) (dispatchQueue vm)
                          (p_handle q))
               | OpPause \<Rightarrow>
                   C_pauseWithCompletionHandler (pointer vm) (dispatchQueue vm) (p_handle q)
               | OpResume \<Rightarrow>
                   C_resumeWithCompletionHandler (pointer vm) (dispatchQueue vm) (p_handle q)
               | OpStop \<Rightarrow>
                   C_stopWithCompletionHandler (pointer vm) (dispatchQueue vm) (p_handle q)]"
        by blast
      from st c q have e: "cs' = cs @ [CWaiting q]" "w' = w1" by simp_all
      have fresh: "handles w (p_handle q) = None"
        unfolding ph by (rule handles_wf_fresh[OF wf nz])
      have hs': "handles w' = (handles w)(p_handle q \<mapsto> HHandler (p_errCh q))"
        unfolding e(2) ph pc by (rule hs)
      have es': "errChans w' (p_errCh q) = Some \<lparr>buf = [], chClosed = False\<rparr>"
        unfolding e(2) pc es by simp
      have none: "completions (p_handle q) evs = []"
      proof (rule ccontr)
        assume "completions (p_handle q) evs \<noteq> []"
        with i7 have "p_handle q \<le> handleIdx w" by blast
        then have "handleIdx w + 1 \<le> handleIdx w" unfolding ph .
        then show False using word_succ_greater[OF nz] by (rule le_less_False)
      qed
      have fc': "foreignCalls w' = foreignCalls w @
              [case op of
                 OpStart opts \<Rightarrow>
                   (case apply_start_opts opts None of
                      Inr (Some optsPtr) \<Rightarrow>
                        C_startWithOptionsCompletionHandler (pointer vm) (dispatchQueue vm)
                          optsPtr (p_handle q)
                    | _ \<Rightarrow>
                        C_startWithCompletionHandler (pointer vm) (dispatchQueue vm)
                          (p_handle q))
               | OpPause \<Rightarrow>
                   C_pauseWithCompletionHandler (pointer vm) (dispatchQueue vm) (p_handle q)
               | OpResume \<Rightarrow>
                   C_resumeWithCompletionHandler (pointer vm) (dispatchQueue vm) (p_handle q)
               | OpStop \<Rightarrow>
                   C_stopWithCompletionHandler (pointer vm) (dispatchQueue vm) (p_handle q)]"
        unfolding e(2) by (rule fc)
      have "?W v op w' cs'"
        by (intro exI[of _ q] exI[of _ vm] conjI) (rule e(1) g1 g2 vm fresh hs' es' none fc')+
      then show ?thesis ..
    qed
  qed
  have tot: "\<forall>v op vm. vms w v = Some vm \<and> handleIdx w + 1 \<noteq> 0 \<longrightarrow>
            (\<exists>w' cs'. bridge_step (Invoke v op) (w, cs) = Inr (w', cs'))"
  proof (intro allI impI)
    fix v op vm assume h: "vms w v = Some vm \<and> handleIdx w + 1 \<noteq> 0"
    then have "vms w v = Some vm" "handleIdx w + 1 \<noteq> 0" by simp_all
    from control_total[OF this, of op] obtain r w1 where c: "control op v w = Inr (r, w1)"
      by blast
    show "\<exists>w' cs'. bridge_step (Invoke v op) (w, cs) = Inr (w', cs')"
    proof (cases r)
      case (Returned e)
      with c show ?thesis by simp
    next
      case (Waiting q)
      with c show ?thesis by simp
    qed
  qed
  have each: "\<forall>i. i < length cs \<longrightarrow>
            (\<forall>p. cs ! i = CWaiting p \<longrightarrow>
               (completions (p_handle p) evs = [] \<and>
                bridge_step (Return i) (w, cs) = Inr (w, cs)) \<or>
               (\<exists>e w'. completions (p_handle p) evs = [e] \<and>
                  bridge_step (Return i) (w, cs) =
                    Inr (w', cs[i := CReturned (Some p) (newNSError e)]))) \<and>
            (\<forall>p r. cs ! i = CReturned (Some p) r \<longrightarrow>
               (\<exists>e. completions (p_handle p) evs = [e] \<and> r = newNSError e)) \<and>
            (\<forall>j p q. j < length cs \<and> j \<noteq> i \<and> call_pending (cs ! i) = Some p \<and>
               call_pending (cs ! j) = Some q \<longrightarrow> p_handle p \<noteq> p_handle q)"
  proof (intro allI impI)
    fix i assume il: "i < length cs"
    from inv il have ci: "call_inv evs w (cs ! i)" by (simp add: bridge_inv_def)
    have a: "\<forall>p. cs ! i = CWaiting p \<longrightarrow>
            (completions (p_handle p) evs = [] \<and>
             bridge_step (Return i) (w, cs) = Inr (w, cs)) \<or>
            (\<exists>e w'. completions (p_handle p) evs = [e] \<and>
               bridge_step (Return i) (w, cs) =
                 Inr (w', cs[i := CReturned (Some p) (newNSError e)]))"
    proof (intro allI impI)
      fix p assume p: "cs ! i = CWaiting p"
      with ci have hp: "handles w (p_handle p) = Some (HHandler (p_errCh p))"
        and ok: "chan_state_ok (completions (p_handle p) evs) (errChans w (p_errCh p))"
        by (simp_all add: call_inv_def)
      from ok consider
          (fresh) "completions (p_handle p) evs = []"
            "errChans w (p_errCh p) = Some \<lparr>buf = [], chClosed = False\<rparr>"
        | (delivered) e where "completions (p_handle p) evs = [e]"
            "errChans w (p_errCh p) = Some \<lparr>buf = [newNSError e], chClosed = True\<rparr>"
        unfolding chan_state_ok_def by blast
      then show "(completions (p_handle p) evs = [] \<and>
             bridge_step (Return i) (w, cs) = Inr (w, cs)) \<or>
            (\<exists>e w'. completions (p_handle p) evs = [e] \<and>
               bridge_step (Return i) (w, cs) =
                 Inr (w', cs[i := CReturned (Some p) (newNSError e)]))"
      proof cases
        case fresh
        from await_fresh[OF fresh(2)] il p
        have "bridge_step (Return i) (w, cs) = Inr (w, cs)" by simp
        with fresh(1) show ?thesis by simp
      next
        case delivered
        from await_delivered[OF delivered(2) hp] il p
        have "\<exists>w'. bridge_step (Return i) (w, cs) =
            Inr (w', cs[i := CReturned (Some p) (newNSError e)])" by simp
        with delivered(1) show ?thesis by blast
      qed
    qed
    have b: "\<forall>p r. cs ! i = CReturned (Some p) r \<longrightarrow>
            (\<exists>e. completions (p_handle p) evs = [e] \<and> r = newNSError e)"
    proof (intro allI impI)
      fix p r assume "cs ! i = CReturned (Some p) r"
      with ci show "\<exists>e. completions (p_handle p) evs = [e] \<and> r = newNSError e"
        by (simp add: call_inv_def)
    qed
    have c: "\<forall>j p q. j < length cs \<and> j \<noteq> i \<and> call_pending (cs ! i) = Some p \<and>
            call_pending (cs ! j) = Some q \<longrightarrow> p_handle p \<noteq> p_handle q"
    proof (intro allI impI)
      fix j p q
      assume "j < length cs \<and> j \<noteq> i \<and> call_pending (cs ! i) = Some p \<and>
            call_pending (cs ! j) = Some q"
      with il have "i < length cs \<and> j < length cs \<and> i \<noteq> j \<and>
          call_pending (cs ! i) = Some p \<and> call_pending (cs ! j) = Some q" by simp
      with pd show "p_handle p \<noteq> p_handle q" unfolding pending_distinct_def by blast
    qed
    show "(\<forall>p. cs ! i = CWaiting p \<longrightarrow>
               (completions (p_handle p) evs = [] \<and>
                bridge_step (Return i) (w, cs) = Inr (w, cs)) \<or>
               (\<exists>e w'. completions (p_handle p) evs = [e] \<and>
                  bridge_step (Return i) (w, cs) =
                    Inr (w', cs[i := CReturned (Some p) (newNSError e)]))) \<and>
            (\<forall>p r. cs ! i = CReturned (Some p) r \<longrightarrow>
               (\<exists>e. completions (p_handle p) evs = [e] \<and> r = newNSError e)) \<and>
            (\<forall>j p q. j < length cs \<and> j \<noteq> i \<and> call_pending (cs ! i) = Some p \<and>
               call_pending (cs ! j) = Some q \<longrightarrow> p_handle p \<noteq> p_handle q)"
      by (intro conjI) (rule a b c)+
  qed
  show ?thesis by (intro conjI) (rule reg tot each)+
qed

lemma demo_bridge_events_run:
  "run bridge_step demo_bridge_events (vm_world, []) =
     Inr (bridged_world,
          [CReturned (Some \<lparr>p_handle = 3, p_errCh = 1\<rparr>) None,
           CReturned (Some \<lparr>p_handle = 4, p_errCh = 2\<rparr>) (Some (NSError 9))])"
  by (simp add: demo_bridge_events_def Pause_def Resume_def with_handler_def makeHandler_def
      NewHandle_def virtualMachineCompletionHandler_def Handle_Value_def handler_def
      newNSError_def await_def Handle_Delete_def vm_world_def demo_vm_def bridged_world_def
      Let_def fun_eq_iff)

lemma bridge_wf_vm_world: "bridge_wf vm_world"
  using handles_wf_vm_world by (simp add: bridge_wf_def vm_world_def)

text \<open>
  Two outstanding calls on the demo machine, completed in the opposite order: the first
  with nil, the second with an error.
\<close>

theorem completion_bridge_witness:
  "run bridge_step demo_bridge_events (vm_world, []) =
     Inr (bridged_world,
          [CReturned (Some \<lparr>p_handle = 3, p_errCh = 1\<rparr>) None,
           CReturned (Some \<lparr>p_handle = 4, p_errCh = 2\<rparr>) (Some (NSError 9))]) \<and>
   completions 4 demo_bridge_events = [Some 9] \<and>
   completions 3 demo_bridge_events = [None] \<and>
   newNSError (Some 9) = Some (NSError 9) \<and> newNSError None = None"
proof -
  let ?cs = "[CReturned (Some \<lparr>p_handle = 3, p_errCh = 1\<rparr>) None,
           CReturned (Some \<lparr>p_handle = 4, p_errCh = 2\<rparr>) (Some (NSError 9))]"
  have l: "1 < length ?cs" by simp
  note t = completion_bridge[OF bridge_wf_vm_world demo_bridge_events_run,
      THEN conjunct2, THEN conjunct2, rule_format, OF l,
      THEN conjunct2, THEN conjunct1, rule_format,
      of "\<lparr>p_handle = 4, p_errCh = 2\<rparr>" "Some (NSError 9)"]
  have "?cs ! 1 = CReturned (Some \<lparr>p_handle = 4, p_errCh = 2\<rparr>) (Some (NSError 9))"
    by simp
  from t[OF this] obtain e where
    e: "completions (p_handle \<lparr>p_handle = 4, p_errCh = 2\<rparr>) demo_bridge_events = [e]"
       "Some (NSError 9) = newNSError e"
    by blast
  have c: "completions 4 demo_bridge_events = [Some 9]"
    "completions 3 demo_bridge_events = [None]"
    by (simp_all add: demo_bridge_events_def)
  from e c demo_bridge_events_run show ?thesis by (simp add: newNSError_def)
qed

end
